theory Spec2Isabelle
  imports Complex_Main "HOL-Library.Word" "HOL-Library.AList"
begin

section \<open>Consumer coordination of the marshal library: a shallow embedding\<close>

text \<open>
  The development embeds the two Go source files of the repository: the \<^verbatim>\<open>claim\<close> type
  with its methods (construction, \<^verbatim>\<open>Release\<close>, \<^verbatim>\<open>heartbeat\<close>, \<^verbatim>\<open>healthCheck\<close>,
  \<^verbatim>\<open>messagePump\<close>, \<^verbatim>\<open>updateOffsets\<close>, \<^verbatim>\<open>average\<close>) and \<^verbatim>\<open>marshal/consumer.go\<close> (the
  \<^verbatim>\<open>consumerClaim\<close> and \<^verbatim>\<open>Consumer\<close> types with \<^verbatim>\<open>updateOffsets\<close>, \<^verbatim>\<open>tryClaimPartition\<close>,
  \<^verbatim>\<open>claimPartitions\<close>, \<^verbatim>\<open>getUnhealthyClaims\<close>, the health sweep of \<^verbatim>\<open>manageClaims\<close> and
  \<^verbatim>\<open>Consume\<close>).

  Conventions.
  \<^item> \<^verbatim>\<open>int64\<close> and \<^verbatim>\<open>int32\<close> are 64 and 32 bit words: \<open>+\<close> and \<open>-\<close> wrap as Go's do, and
    Go's signed comparisons are \<open><s\<close> and \<open>\<le>s\<close>.
  \<^item> Go's \<^verbatim>\<open>int\<close> (partition ids, counters) is \<open>int\<close>; where the source does arithmetic on
    it the 64 bit wrap-around is written out with \<open>wrap64\<close>.
  \<^item> A method returns its Go result, the updated receiver and the list of \<open>event\<close>s it
    caused, in program order: the calls into the marshaler and the broker, the \<^verbatim>\<open>go\<close>
    statements, the sleeps.
  \<^item> The marshaler, the broker client, the clock and \<^verbatim>\<open>HeartbeatInterval\<close> are declared
    outside the two files; they are parameters. A method calls each marshaler operation
    at most once per partition, so the marshaler's answers are given as functions of the
    call's arguments.
  \<^item> \<^verbatim>\<open>float64\<close> arithmetic is a parameter as well (\<open>float64_ops\<close>): nothing is assumed
    about rounding.
\<close>

subsection \<open>Machine integers\<close>

type_synonym int64 = "64 word"
type_synonym int32 = "32 word"

definition wrap64 :: "int \<Rightarrow> int" where
  "wrap64 k = signed_take_bit 63 k"

text \<open>Go's \<^verbatim>\<open>%\<close> truncates towards zero: the remainder has the sign of the dividend.\<close>

definition go_rem :: "int \<Rightarrow> int \<Rightarrow> int" where
  "go_rem a b = sgn a * (\<bar>a\<bar> mod \<bar>b\<bar>)"

subsection \<open>Floating point, as a parameter\<close>

text \<open>
  \<open>f64 F k\<close> is \<^verbatim>\<open>float64(x)\<close> for an integer \<^verbatim>\<open>x\<close> of value \<open>k\<close>, \<open>fdiv\<close> is \<^verbatim>\<open>/\<close>,
  \<open>fle\<close> is \<^verbatim>\<open><=\<close> and \<open>fgt\<close> is \<^verbatim>\<open>>\<close> on \<^verbatim>\<open>float64\<close>.
\<close>

record 'f float64_ops =
  f64 :: "int \<Rightarrow> 'f"
  fdiv :: "'f \<Rightarrow> 'f \<Rightarrow> 'f"
  fle :: "'f \<Rightarrow> 'f \<Rightarrow> bool"
  fgt :: "'f \<Rightarrow> 'f \<Rightarrow> bool"

text \<open>Exact arithmetic on the reals is one instance (used for concrete evaluation).\<close>

definition real_ops :: "real float64_ops" where
  "real_ops = \<lparr> f64 = real_of_int, fdiv = (/), fle = (\<le>), fgt = (\<lambda>a b. b < a) \<rparr>"

subsection \<open>Errors, messages, events\<close>

text \<open>
  A non-nil Go \<^verbatim>\<open>error\<close>. \<^verbatim>\<open>proto.ErrOffsetOutOfRange\<close> is the one value the source
  compares with.
\<close>

datatype error = ErrOffsetOutOfRange | ErrOther string

datatype panic = IntnNonPositive | IndexOutOfRange

record message =
  Topic :: string
  Partition :: int32
  Offset :: int64
  Value :: "8 word list"

datatype goroutine =
    GoRelease
  | GoHeartbeat
  | GoUpdateOffsetsLoop
  | GoHealthCheckLoop
  | GoMessagePump
  | GoMarshalHeartbeat string int int64

datatype event =
    CallGetPartitionClaim string int
  | CallGetPartitionOffsets string int
  | CallClaimPartition string int
  | CallHeartbeat string int int64
  | CallReleasePartition string int int64
  | CallKafkaConsumer string int32 int64
  | CallConsume
  | Go int goroutine
  | Sleep nat
  | StoreClaimed int int32
  | DeleteClaim int
  | TryClaimPartition int bool

text \<open>
  \<open>Go p g\<close> is a \<^verbatim>\<open>go\<close> statement starting \<open>g\<close> for the claim of partition \<open>p\<close>;
  \<open>Sleep n\<close> is \<^verbatim>\<open>time.Sleep\<close> of \<open>n\<close> milliseconds; \<open>StoreClaimed p v\<close> is
  \<^verbatim>\<open>atomic.StoreInt32(claim.claimed, v)\<close> on the claim of partition \<open>p\<close>; \<open>DeleteClaim p\<close> is
  \<^verbatim>\<open>delete(c.claims, p)\<close>; \<open>TryClaimPartition p b\<close> records that \<^verbatim>\<open>tryClaimPartition(p)\<close>
  was called and returned \<open>b\<close>.
\<close>

subsection \<open>The marshaler\<close>

text \<open>
  \<open>GetPartitionClaim\<close> gives the \<^verbatim>\<open>LastHeartbeat\<close> field of the returned claim,
  \<open>GetPartitionOffsets\<close> gives \<^verbatim>\<open>(earliest, latest, current)\<close> or an error,
  \<open>kafkaConsumer\<close> is \<^verbatim>\<open>marshal.kafka.Consumer(conf)\<close> for the configuration of a topic,
  a partition and a start offset: \<open>None\<close> when the broker consumer was created.
\<close>

record marshaler =
  GetPartitionClaim :: "string \<Rightarrow> int \<Rightarrow> int64"
  GetPartitionOffsets :: "string \<Rightarrow> int \<Rightarrow> error + (int64 \<times> int64 \<times> int64)"
  ClaimPartition :: "string \<Rightarrow> int \<Rightarrow> bool"
  Heartbeat :: "string \<Rightarrow> int \<Rightarrow> int64 \<Rightarrow> error option"
  ReleasePartition :: "string \<Rightarrow> int \<Rightarrow> int64 \<Rightarrow> error option"
  kafkaConsumer :: "string \<Rightarrow> int32 \<Rightarrow> int64 \<Rightarrow> error option"

subsection \<open>The claim structures\<close>

text \<open>
  \<^verbatim>\<open>claim\<close> and \<^verbatim>\<open>consumerClaim\<close> declare the same fields in the same order up to
  \<^verbatim>\<open>offsetLatest\<close>; \<open>claim_fields\<close> holds them once. \<open>claimed\<close> is the value behind the
  \<^verbatim>\<open>*int32\<close>, \<open>messages\<close> the buffer of the channel (capacity 100), oldest first. The
  lock, the marshaler pointer, the random source and the broker consumer handle are not
  data of the model.
\<close>

record claim_fields =
  topic :: string
  partID :: int
  claimed :: int32
  lastHeartbeat :: int64
  messages :: "message list"
  cyclesBehind :: int
  offsetCurrent :: int64
  offsetEarliest :: int64
  offsetLatest :: int64

record claim = claim_fields +
  offsetCurrentHistory :: "int64 list"
  offsetLatestHistory :: "int64 list"

record consumerClaim = claim_fields +
  startOffset :: int64
  startTime :: int64

subsection \<open>\<^verbatim>\<open>average\<close> and the velocities\<close>

fun average_loop :: "int64 list \<Rightarrow> int64 \<Rightarrow> int64 \<Rightarrow> int64 \<Rightarrow> int64 \<times> int64 \<times> int64" where
  "average_loop [] mn mx ct = (mn, mx, ct)"
| "average_loop (val # vals) mn mx ct =
     (if val \<le>s 0 then average_loop vals mn mx ct
      else average_loop vals
             (if mn = 0 \<or> val <s mn then val else mn)
             (if mx = 0 \<or> mx <s val then val else mx)
             (ct + 1))"

definition average :: "('f, 'x) float64_ops_scheme \<Rightarrow> int64 list \<Rightarrow> 'f" where
  "average F vals =
     (case average_loop vals 0 0 0 of
        (mn, mx, ct) \<Rightarrow>
          if ct = 0 then f64 F 0
          else fdiv F (f64 F (sint (mx - mn))) (f64 F (sint ct)))"

definition claim_ConsumerVelocity :: "('f, 'x) float64_ops_scheme \<Rightarrow> claim \<Rightarrow> 'f" where
  "claim_ConsumerVelocity F c = average F (offsetCurrentHistory c)"

definition claim_PartitionVelocity :: "('f, 'x) float64_ops_scheme \<Rightarrow> claim \<Rightarrow> 'f" where
  "claim_PartitionVelocity F c = average F (offsetLatestHistory c)"

text \<open>
  The estimator in the words of the specification: the non-positive samples are ignored,
  the result is \<open>(max - min) / count_of_valid\<close>, and zero when no sample is valid. The
  integers are mathematical ones here.
\<close>

definition valid_samples :: "int64 list \<Rightarrow> int list" where
  "valid_samples vals = filter (\<lambda>k. 0 < k) (map sint vals)"

definition velocity_spec :: "('f, 'x) float64_ops_scheme \<Rightarrow> int64 list \<Rightarrow> 'f" where
  "velocity_spec F vals =
     (let valid = valid_samples vals in
      if valid = [] then f64 F 0
      else fdiv F (f64 F (Max (set valid) - Min (set valid))) (f64 F (int (length valid))))"

subsection \<open>Methods of \<^verbatim>\<open>claim\<close>\<close>

text \<open>
  \<^verbatim>\<open>setup\<close>: the initial worker of a new claim. On a failed heartbeat and on a failed
  creation of the broker consumer it stores 0 in the flag and returns.
\<close>

definition claim_setup :: "marshaler \<Rightarrow> int64 \<Rightarrow> claim \<Rightarrow> claim \<times> event list" where
  "claim_setup m now c0 =
     (let c = (if offsetCurrent c0 <s offsetEarliest c0
               then c0\<lparr>offsetCurrent := offsetEarliest c0\<rparr> else c0);
          ev1 = [CallHeartbeat (topic c) (partID c) (offsetCurrent c)]
      in case Heartbeat m (topic c) (partID c) (offsetCurrent c) of
           Some err \<Rightarrow> (c\<lparr>claimed := 0\<rparr>, ev1 @ [StoreClaimed (partID c) 0])
         | None \<Rightarrow>
             (let c1 = c\<lparr>lastHeartbeat := now\<rparr>;
                  ev2 = ev1 @ [CallKafkaConsumer (topic c1) (word_of_int (partID c1)) (offsetCurrent c1)]
              in case kafkaConsumer m (topic c1) (word_of_int (partID c1)) (offsetCurrent c1) of
                   Some err \<Rightarrow> (c1\<lparr>claimed := 0\<rparr>, ev2 @ [StoreClaimed (partID c1) 0])
                 | None \<Rightarrow>
                     (c1, ev2 @ [Go (partID c1) GoUpdateOffsetsLoop,
                                 Go (partID c1) GoHealthCheckLoop,
                                 Go (partID c1) GoMessagePump])))"

definition claim_Consumed :: "int64 \<Rightarrow> claim \<Rightarrow> bool \<times> claim" where
  "claim_Consumed offset c =
     (if claimed c \<noteq> 1 then (False, c)
      else (True, c\<lparr>offsetCurrent := offset + 1\<rparr>))"

definition claim_Claimed :: "claim \<Rightarrow> bool" where
  "claim_Claimed c = (claimed c = 1)"

definition claim_GetCurrentLag :: "claim \<Rightarrow> int64" where
  "claim_GetCurrentLag c =
     (if offsetCurrent c <s offsetLatest c then offsetLatest c - offsetCurrent c else 0)"

text \<open>
  \<^verbatim>\<open>Release\<close>. \<^verbatim>\<open>atomic.CompareAndSwapInt32(c.claimed, 1, 0)\<close> is one atomic step: it
  stores 0 and succeeds exactly when the flag holds 1.
\<close>

definition CompareAndSwap_claimed :: "'a claim_fields_scheme \<Rightarrow> bool \<times> 'a claim_fields_scheme" where
  "CompareAndSwap_claimed c =
     (if claimed c = 1 then (True, c\<lparr>claimed := 0\<rparr>) else (False, c))"

definition claim_Release :: "marshaler \<Rightarrow> claim \<Rightarrow> bool \<times> claim \<times> event list" where
  "claim_Release m c0 =
     (case CompareAndSwap_claimed c0 of
        (False, c) \<Rightarrow> (False, c, [])
      | (True, c) \<Rightarrow>
          (case ReleasePartition m (topic c) (partID c) (offsetCurrent c) of
             Some err \<Rightarrow> (False, c, [CallReleasePartition (topic c) (partID c) (offsetCurrent c)])
           | None \<Rightarrow> (True, c, [CallReleasePartition (topic c) (partID c) (offsetCurrent c)])))"

text \<open>
  Concurrent callers of \<^verbatim>\<open>Release\<close>. Each caller is at one of three places: before the
  compare-and-swap, after a successful one and before the call of
  \<^verbatim>\<open>marshal.ReleasePartition\<close>, or returned. The claim and the events are shared. A
  schedule lists the steps in the order in which they happen: \<open>Caller i\<close> is the next step
  of caller \<open>i\<close>, \<open>Worker g\<close> a step of another worker of the claim (the offset loop, the
  health check, the pump, \<^verbatim>\<open>Consumed\<close>) that changes the claim by \<open>g\<close>. \<open>Release_run\<close>
  executes a schedule. A caller that a \<^verbatim>\<open>go c.Release()\<close> starts later is a caller that
  takes its first step later.
\<close>

datatype release_pc = AtCompareAndSwap | AtReleasePartition | Returned bool

datatype release_action = Caller nat | Worker "claim \<Rightarrow> claim"

fun Release_step :: "marshaler \<Rightarrow> claim \<times> event list \<Rightarrow> release_pc
                     \<Rightarrow> (claim \<times> event list) \<times> release_pc" where
  "Release_step m (c0, evs) AtCompareAndSwap =
     (case CompareAndSwap_claimed c0 of
        (False, c) \<Rightarrow> ((c, evs), Returned False)
      | (True, c) \<Rightarrow> ((c, evs), AtReleasePartition))"
| "Release_step m (c, evs) AtReleasePartition =
     ((c, evs @ [CallReleasePartition (topic c) (partID c) (offsetCurrent c)]),
      Returned (ReleasePartition m (topic c) (partID c) (offsetCurrent c) = None))"
| "Release_step m (c, evs) (Returned b) = ((c, evs), Returned b)"

fun Release_run :: "marshaler \<Rightarrow> release_action list
                    \<Rightarrow> (claim \<times> event list) \<times> release_pc list
                    \<Rightarrow> (claim \<times> event list) \<times> release_pc list" where
  "Release_run m [] cfg = cfg"
| "Release_run m (Caller i # sched) (s, pcs) =
     (if i < length pcs
      then (case Release_step m s (pcs ! i) of
              (s', pc') \<Rightarrow> Release_run m sched (s', pcs[i := pc']))
      else Release_run m sched (s, pcs))"
| "Release_run m (Worker g # sched) ((c, evs), pcs) = Release_run m sched ((g c, evs), pcs)"

text \<open>
  No method of \<^verbatim>\<open>claim\<close> stores 1 in the flag (\<^verbatim>\<open>newClaim\<close> does, before the claim is
  shared): a worker's step leaves a released claim released.
\<close>

definition stays_released :: "(claim \<Rightarrow> claim) \<Rightarrow> bool" where
  "stays_released g = (\<forall>c. claimed c \<noteq> 1 \<longrightarrow> claimed (g c) \<noteq> 1)"

fun workers :: "release_action list \<Rightarrow> (claim \<Rightarrow> claim) list" where
  "workers [] = []"
| "workers (Caller i # sched) = workers sched"
| "workers (Worker g # sched) = g # workers sched"

text \<open>
  \<^verbatim>\<open>messagePump\<close>, one pass of its loop. \<open>res\<close> is what \<^verbatim>\<open>c.consumer.Consume()\<close> returns
  when the pass calls it: an error or a message. A send on the full channel blocks:
  the pass then ends in \<open>BlockedSend\<close> holding the message, with the claim as it was.
\<close>

datatype pump_status = Continue | Exit | BlockedSend message

definition claim_messagePump_pass :: "error + message \<Rightarrow> claim \<Rightarrow> pump_status \<times> claim \<times> event list" where
  "claim_messagePump_pass res c =
     (if \<not> claim_Claimed c then (Exit, c, [])
      else case res of
             Inl err \<Rightarrow>
               if err = ErrOffsetOutOfRange then (Exit, c, [CallConsume, Go (partID c) GoRelease])
               else (Continue, c, [CallConsume, Sleep 1000])
           | Inr msg \<Rightarrow>
               if length (messages c) < 100
               then (Continue, c\<lparr>messages := messages c @ [msg]\<rparr>, [CallConsume])
               else (BlockedSend msg, c, [CallConsume]))"

text \<open>The loop, over the answers the broker gives to the successive calls.\<close>

fun claim_messagePump :: "(error + message) list \<Rightarrow> claim \<Rightarrow> pump_status \<times> claim \<times> event list" where
  "claim_messagePump [] c = (Continue, c, [])"
| "claim_messagePump (res # rest) c =
     (case claim_messagePump_pass res c of
        (Continue, c', evs) \<Rightarrow>
          (case claim_messagePump rest c' of (st, c'', evs') \<Rightarrow> (st, c'', evs @ evs'))
      | (st, c', evs) \<Rightarrow> (st, c', evs))"

text \<open>\<^verbatim>\<open>heartbeat\<close>: the assignment to \<^verbatim>\<open>lastHeartbeat\<close> follows the \<^verbatim>\<open>if\<close>, on both paths.\<close>

definition claim_heartbeat :: "marshaler \<Rightarrow> int64 \<Rightarrow> claim \<Rightarrow> claim \<times> event list" where
  "claim_heartbeat m now c =
     (let err = Heartbeat m (topic c) (partID c) (offsetCurrent c);
          ev1 = [CallHeartbeat (topic c) (partID c) (offsetCurrent c)];
          ev2 = (if err \<noteq> None then ev1 @ [Go (partID c) GoRelease] else ev1)
      in (c\<lparr>lastHeartbeat := now\<rparr>, ev2))"

text \<open>
  \<^verbatim>\<open>healthCheck\<close>. \<open>HeartbeatInterval\<close> is the value of the constant; \<open>now\<close> is
  \<^verbatim>\<open>time.Now().Unix()\<close>.
\<close>

definition claim_healthCheck ::
  "('f, 'x) float64_ops_scheme \<Rightarrow> int \<Rightarrow> int64 \<Rightarrow> claim \<Rightarrow> bool \<times> claim \<times> event list" where
  "claim_healthCheck F HeartbeatInterval now c =
     (let consumerVelocity = claim_ConsumerVelocity F c;
          partitionVelocity = claim_PartitionVelocity F c
      in if lastHeartbeat c <s now - word_of_int HeartbeatInterval
         then (False, c, [Go (partID c) GoRelease])
         else if offsetLatest c \<le>s offsetCurrent c
         then (True, c\<lparr>cyclesBehind := 0\<rparr>, [])
         else if fle F partitionVelocity consumerVelocity
         then (True, c\<lparr>cyclesBehind := 0\<rparr>, [])
         else (let c' = c\<lparr>cyclesBehind := wrap64 (cyclesBehind c + 1)\<rparr>
               in if 3 \<le> cyclesBehind c'
                  then (False, c', [Go (partID c') GoRelease])
                  else (True, c', [])))"

text \<open>
  \<^verbatim>\<open>updateOffsets(ctr)\<close> of a claim. The history arrays have ten elements; a negative
  \<^verbatim>\<open>ctr%10\<close> is an index out of range, after the two offsets were assigned.
\<close>

definition claim_updateOffsets ::
  "marshaler \<Rightarrow> int \<Rightarrow> claim \<Rightarrow> panic + (error option \<times> claim \<times> event list)" where
  "claim_updateOffsets m ctr c =
     (case GetPartitionOffsets m (topic c) (partID c) of
        Inl err \<Rightarrow> Inr (Some err, c, [CallGetPartitionOffsets (topic c) (partID c)])
      | Inr (oEarly, oLate, oCur) \<Rightarrow>
          (let c1 = c\<lparr>offsetEarliest := oEarly, offsetLatest := oLate\<rparr>;
               i = go_rem ctr 10
           in if i < 0 then Inl IndexOutOfRange
              else Inr (None,
                        c1\<lparr>offsetLatestHistory := (offsetLatestHistory c1)[nat i := oLate],
                           offsetCurrentHistory := (offsetCurrentHistory c1)[nat i := offsetCurrent c1]\<rparr>,
                        [CallGetPartitionOffsets (topic c) (partID c)])))"

subsection \<open>\<^verbatim>\<open>marshal/consumer.go\<close>: the consumer\<close>

definition CbAggressive :: int where
  "CbAggressive = 0"

definition CbBalanced :: int where
  "CbBalanced = 1"

text \<open>
  \<open>claims\<close> is the Go map from partition ids to claim pointers: \<open>None\<close> is the nil map,
  otherwise a list of entries with distinct keys in the order in which \<^verbatim>\<open>range\<close> visits
  them (Go leaves the order open; every theorem holds for every order). Each claim is
  stored under its own \<open>partID\<close>, so a pointer to a claim is its key.
\<close>

record Consumer =
  Consumer_topic :: string
  partitions :: int
  claims :: "(int \<times> consumerClaim) list option"
  behavior :: int

definition len_claims :: "Consumer \<Rightarrow> int" where
  "len_claims c = (case claims c of None \<Rightarrow> 0 | Some cs \<Rightarrow> int (length cs))"

definition lookup_claim :: "Consumer \<Rightarrow> int \<Rightarrow> consumerClaim option" where
  "lookup_claim c p = (case claims c of None \<Rightarrow> None | Some cs \<Rightarrow> map_of cs p)"

text \<open>\<^verbatim>\<open>consumerClaim.messagePump\<close>, one pass of its loop.\<close>

definition consumerClaim_messagePump_pass ::
  "error + message \<Rightarrow> consumerClaim \<Rightarrow> pump_status \<times> consumerClaim \<times> event list" where
  "consumerClaim_messagePump_pass res c =
     (if claimed c \<noteq> 1 then (Exit, c, [])
      else case res of
             Inl err \<Rightarrow>
               if err = ErrOffsetOutOfRange
               then (Exit, c\<lparr>claimed := 0\<rparr>, [CallConsume, StoreClaimed (partID c) 0])
               else (Continue, c, [CallConsume, Sleep 1000])
           | Inr msg \<Rightarrow>
               if length (messages c) < 100
               then (Continue, c\<lparr>messages := messages c @ [msg]\<rparr>, [CallConsume])
               else (BlockedSend msg, c, [CallConsume]))"

text \<open>The loop of \<^verbatim>\<open>consumerClaim.messagePump\<close>.\<close>

fun consumerClaim_messagePump ::
  "(error + message) list \<Rightarrow> consumerClaim \<Rightarrow> pump_status \<times> consumerClaim \<times> event list" where
  "consumerClaim_messagePump [] c = (Continue, c, [])"
| "consumerClaim_messagePump (res # rest) c =
     (case consumerClaim_messagePump_pass res c of
        (Continue, c', evs) \<Rightarrow>
          (case consumerClaim_messagePump rest c' of (st, c'', evs') \<Rightarrow> (st, c'', evs @ evs'))
      | (st, c', evs) \<Rightarrow> (st, c', evs))"

text \<open>
  A pump of the claim of partition \<open>p\<close> makes one pass: the claim is shared between the
  map and its pump.
\<close>

definition pump_pass_on :: "int \<Rightarrow> error + message \<Rightarrow> Consumer \<Rightarrow> Consumer" where
  "pump_pass_on p res c =
     (case claims c of
        None \<Rightarrow> c
      | Some cs \<Rightarrow>
          (case map_of cs p of
             None \<Rightarrow> c
           | Some claim \<Rightarrow>
               c\<lparr>claims := Some (AList.update p
                    (fst (snd (consumerClaim_messagePump_pass res claim))) cs)\<rparr>))"

text \<open>\<^verbatim>\<open>Consumer.updateOffsets\<close>: the loop returns at the first failed fetch.\<close>

fun updateOffsets_range ::
  "marshaler \<Rightarrow> string \<Rightarrow> (int \<times> consumerClaim) list
     \<Rightarrow> error option \<times> (int \<times> consumerClaim) list \<times> event list" where
  "updateOffsets_range m t [] = (None, [], [])"
| "updateOffsets_range m t ((p, claim) # rest) =
     (case GetPartitionOffsets m t p of
        Inl err \<Rightarrow> (Some err, (p, claim) # rest, [CallGetPartitionOffsets t p])
      | Inr (oEarly, oLate, oCur) \<Rightarrow>
          (case updateOffsets_range m t rest of
             (r, rest', evs) \<Rightarrow>
               (r, (p, claim\<lparr>offsetEarliest := oEarly, offsetLatest := oLate\<rparr>) # rest',
                CallGetPartitionOffsets t p # evs)))"

definition Consumer_updateOffsets :: "marshaler \<Rightarrow> Consumer \<Rightarrow> error option \<times> Consumer \<times> event list" where
  "Consumer_updateOffsets m c =
     (case claims c of
        None \<Rightarrow> (None, c, [])
      | Some cs \<Rightarrow>
          (case updateOffsets_range m (Consumer_topic c) cs of
             (r, cs', evs) \<Rightarrow> (r, c\<lparr>claims := Some cs'\<rparr>, evs)))"

text \<open>
  \<^verbatim>\<open>tryClaimPartition\<close>. \<open>now\<close> is \<^verbatim>\<open>time.Now().Unix()\<close> at the heartbeat. The events
  accumulate in program order; the last assignment to the map is skipped on a nil map.
\<close>

definition new_consumerClaim :: "string \<Rightarrow> int \<Rightarrow> int64 \<Rightarrow> int64 \<Rightarrow> int64 \<Rightarrow> consumerClaim" where
  "new_consumerClaim t p oEarly oLate oCur =
     \<lparr> topic = t, partID = p, claimed = 1, lastHeartbeat = 0, messages = [],
       cyclesBehind = 0, offsetCurrent = oCur, offsetEarliest = oEarly,
       offsetLatest = oLate, startOffset = 0, startTime = 0 \<rparr>"

definition Consumer_tryClaimPartition ::
  "marshaler \<Rightarrow> int64 \<Rightarrow> int \<Rightarrow> Consumer \<Rightarrow> bool \<times> Consumer \<times> event list" where
  "Consumer_tryClaimPartition m now p c =
     (let t = Consumer_topic c;
          ev1 = [CallGetPartitionClaim t p]
      in if 0 <s GetPartitionClaim m t p then (False, c, ev1)
         else
           case GetPartitionOffsets m t p of
             Inl err \<Rightarrow> (False, c, ev1 @ [CallGetPartitionOffsets t p])
           | Inr (oEarly, oLate, oCur) \<Rightarrow>
               (let claim0 = new_consumerClaim t p oEarly oLate oCur;
                    ev2 = ev1 @ [CallGetPartitionOffsets t p, CallClaimPartition t p]
                in if \<not> ClaimPartition m t p then (False, c, ev2)
                   else
                     (let claim1 = (if offsetCurrent claim0 <s offsetEarliest claim0
                                    then claim0\<lparr>offsetCurrent := offsetEarliest claim0\<rparr>
                                    else claim0);
                          ev3 = ev2 @ [CallHeartbeat t p (offsetCurrent claim1)]
                      in case Heartbeat m t p (offsetCurrent claim1) of
                           Some err \<Rightarrow> (False, c, ev3)
                         | None \<Rightarrow>
                             (let claim2 = claim1\<lparr>lastHeartbeat := now\<rparr>;
                                  claim3 = claim2\<lparr>startOffset := offsetCurrent claim2,
                                                  startTime := lastHeartbeat claim2\<rparr>;
                                  ev4 = ev3 @ [CallKafkaConsumer t (word_of_int p) (offsetCurrent claim3)]
                              in case kafkaConsumer m t (word_of_int p) (offsetCurrent claim3) of
                                   Some err \<Rightarrow> (False, c, ev4)
                                 | None \<Rightarrow>
                                     (True,
                                      (case claims c of
                                         None \<Rightarrow> c
                                       | Some cs \<Rightarrow> c\<lparr>claims := Some (AList.update p claim3 cs)\<rparr>),
                                      ev4 @ [Go p GoMessagePump])))))"

text \<open>
  \<^verbatim>\<open>claimPartitions\<close>. \<open>offset\<close> is the value \<^verbatim>\<open>rand.Intn(c.partitions)\<close> returned (it
  panics on a non-positive argument); \<open>clock p\<close> is the time \<^verbatim>\<open>tryClaimPartition(p)\<close>
  reads.
\<close>

lemma tryClaimPartition_partitions:
  "Consumer_tryClaimPartition m now p c = (ok, c', evs) \<Longrightarrow> partitions c' = partitions c"
  by (auto simp: Consumer_tryClaimPartition_def Let_def
           split: if_splits sum.splits option.splits prod.splits)

lemma tryClaimPartition_measure:
  assumes "(ok, y) = Consumer_tryClaimPartition m now p c" and "(c', evs) = y"
    and "i < partitions c"
  shows "nat (partitions c' - (i + 1)) < nat (partitions c - i)"
proof -
  from assms(1,2) have "Consumer_tryClaimPartition m now p c = (ok, c', evs)"
    by simp
  then have "partitions c' = partitions c"
    by (rule tryClaimPartition_partitions)
  with assms(3) show ?thesis by simp
qed

function claimPartitions_loop ::
  "marshaler \<Rightarrow> (int \<Rightarrow> int64) \<Rightarrow> int \<Rightarrow> int \<Rightarrow> Consumer \<Rightarrow> Consumer \<times> event list" where
  "claimPartitions_loop m clock offset i c =
     (if i < partitions c then
        (let p = go_rem (wrap64 (i + offset)) (partitions c) in
         if lookup_claim c p \<noteq> None then claimPartitions_loop m clock offset (i + 1) c
         else
           (case Consumer_tryClaimPartition m (clock p) p c of
              (ok, c', evs) \<Rightarrow>
                if \<not> ok then
                  (case claimPartitions_loop m clock offset (i + 1) c' of
                     (c'', evs') \<Rightarrow> (c'', evs @ TryClaimPartition p False # evs'))
                else if behavior c' = CbBalanced then (c', evs @ [TryClaimPartition p True])
                else
                  (case claimPartitions_loop m clock offset (i + 1) c' of
                     (c'', evs') \<Rightarrow> (c'', evs @ TryClaimPartition p True # evs'))))
      else (c, []))"
  by pat_completeness auto
termination
  apply (relation "measure (\<lambda>(m, clock, offset, i, c). nat (partitions c - i))")
  subgoal by simp
  subgoal by simp
  subgoal for m clock offset i c x xa y xb ya
    using tryClaimPartition_measure [of xa y m "clock x" x c xb ya i] by simp
  subgoal for m clock offset i c x xa y xb ya
    using tryClaimPartition_measure [of xa y m "clock x" x c xb ya i] by simp
  done

definition Consumer_claimPartitions ::
  "marshaler \<Rightarrow> (int \<Rightarrow> int64) \<Rightarrow> int \<Rightarrow> Consumer \<Rightarrow> panic + (Consumer \<times> event list)" where
  "Consumer_claimPartitions m clock offset c =
     (if partitions c \<le> 0 then Inl IntnNonPositive
      else Inr (claimPartitions_loop m clock offset 0 c))"

text \<open>
  \<^verbatim>\<open>getUnhealthyClaims\<close>. The result lists the claims to give up, as the loop appended
  them; \<open>nowTime\<close> is read once, before the loop.
\<close>

fun getUnhealthyClaims_range ::
  "('f, 'x) float64_ops_scheme \<Rightarrow> int \<Rightarrow> int64 \<Rightarrow> (int \<times> consumerClaim) list
     \<Rightarrow> consumerClaim list \<times> (int \<times> consumerClaim) list" where
  "getUnhealthyClaims_range F HeartbeatInterval nowTime [] = ([], [])"
| "getUnhealthyClaims_range F HeartbeatInterval nowTime ((p, claim) # rest) =
     (case getUnhealthyClaims_range F HeartbeatInterval nowTime rest of
        (unclaimPartitions, rest') \<Rightarrow>
          if claimed claim = 0 then (claim # unclaimPartitions, (p, claim) # rest')
          else if offsetLatest claim \<le>s offsetCurrent claim
          then (unclaimPartitions, (p, claim) # rest')
          else if offsetCurrent claim = startOffset claim \<or> nowTime = startTime claim
          then (unclaimPartitions, (p, claim) # rest')
          else
            (let velocity = fdiv F (f64 F (sint (offsetCurrent claim - startOffset claim)))
                                   (f64 F (sint (nowTime - startTime claim)));
                 secondsBehind = fdiv F (f64 F (sint (offsetLatest claim - offsetCurrent claim)))
                                        velocity
             in if fgt F secondsBehind (f64 F (HeartbeatInterval * 2))
                then (let claim' = claim\<lparr>cyclesBehind := wrap64 (cyclesBehind claim + 1)\<rparr>
                      in if 3 \<le> cyclesBehind claim'
                         then (claim' # unclaimPartitions, (p, claim') # rest')
                         else (unclaimPartitions, (p, claim') # rest'))
                else (unclaimPartitions, (p, claim\<lparr>cyclesBehind := 0\<rparr>) # rest')))"

definition Consumer_getUnhealthyClaims ::
  "('f, 'x) float64_ops_scheme \<Rightarrow> int \<Rightarrow> int64 \<Rightarrow> Consumer \<Rightarrow> consumerClaim list \<times> Consumer" where
  "Consumer_getUnhealthyClaims F HeartbeatInterval nowTime c =
     (case claims c of
        None \<Rightarrow> ([], c)
      | Some cs \<Rightarrow>
          (case getUnhealthyClaims_range F HeartbeatInterval nowTime cs of
             (unclaimPartitions, cs') \<Rightarrow> (unclaimPartitions, c\<lparr>claims := Some cs'\<rparr>)))"

text \<open>
  The health sweep of \<^verbatim>\<open>manageClaims\<close>: one pass of its loop from the test for the nil map
  to the calls of \<^verbatim>\<open>ReleasePartition\<close>, when the offset update is due. \<open>release_loop\<close> is
  the loop under the write lock, \<open>maxToRelease\<close> its budget; \<^verbatim>\<open>delete\<close> on a nil map does
  nothing. The loop after it calls \<^verbatim>\<open>ReleasePartition\<close> for each element of
  \<^verbatim>\<open>unclaimPartitions\<close>.
\<close>

fun release_loop ::
  "int \<Rightarrow> consumerClaim list \<Rightarrow> (int \<times> consumerClaim) list option
     \<Rightarrow> (int \<times> consumerClaim) list option \<times> event list" where
  "release_loop maxToRelease [] cs = (cs, [])"
| "release_loop maxToRelease (claim # rest) cs =
     (if maxToRelease \<le> 0 then (cs, [])
      else
        (case release_loop (maxToRelease - 1) rest
                (map_option (AList.delete (partID claim)) cs) of
           (cs', evs) \<Rightarrow>
             (cs', StoreClaimed (partID claim) 0 # DeleteClaim (partID claim) # evs)))"

definition manageClaims_sweep ::
  "('f, 'x) float64_ops_scheme \<Rightarrow> marshaler \<Rightarrow> int \<Rightarrow> int64 \<Rightarrow> Consumer
     \<Rightarrow> Consumer \<times> event list" where
  "manageClaims_sweep F m HeartbeatInterval nowTime c =
     (case claims c of
        None \<Rightarrow> (c, [])
      | Some cs0 \<Rightarrow>
          (let claimCount = len_claims c in
           case Consumer_updateOffsets m c of
             (r, c1, ev1) \<Rightarrow>
               (case Consumer_getUnhealthyClaims F HeartbeatInterval nowTime c1 of
                  (unclaimPartitions, c2) \<Rightarrow>
                    if 0 < length unclaimPartitions then
                      (let maxToRelease = claimCount div 2 in
                       case release_loop maxToRelease unclaimPartitions (claims c2) of
                         (cs3, ev3) \<Rightarrow>
                           (c2\<lparr>claims := cs3\<rparr>,
                            ev1 @ ev3 @
                            map (\<lambda>claim. CallReleasePartition (topic claim) (partID claim)
                                            (offsetCurrent claim))
                                unclaimPartitions))
                    else (c2, ev1))))"

text \<open>
  \<^verbatim>\<open>Consume\<close>. \<open>Consume_scan\<close> is the loop over the claims under the read lock: the
  \<^verbatim>\<open>select\<close> takes the oldest message of a channel that has one and assigns it to
  \<^verbatim>\<open>msg\<close>; its \<^verbatim>\<open>break\<close> leaves the \<^verbatim>\<open>select\<close>, and the loop goes on to the next claim.
  \<open>Consume_pass\<close> is one pass of the outer loop: \<open>None\<close> when it goes round again.
  \<open>Consumer_Consume\<close> runs at most \<open>n\<close> passes; \<open>clock k\<close> is the time read in the pass
  with \<open>k\<close> passes left.
\<close>

fun Consume_scan ::
  "(int \<times> consumerClaim) list \<Rightarrow> message option
     \<Rightarrow> message option \<times> (int \<times> consumerClaim) list" where
  "Consume_scan [] msg = (msg, [])"
| "Consume_scan ((p, claim) # rest) msg =
     (case messages claim of
        [] \<Rightarrow>
          (case Consume_scan rest msg of (r, rest') \<Rightarrow> (r, (p, claim) # rest'))
      | x # xs \<Rightarrow>
          (case Consume_scan rest (Some x) of
             (r, rest') \<Rightarrow> (r, (p, claim\<lparr>messages := xs\<rparr>) # rest')))"

definition Consume_pass ::
  "int \<Rightarrow> int64 \<Rightarrow> Consumer \<Rightarrow> (8 word list) option \<times> Consumer \<times> event list" where
  "Consume_pass HeartbeatInterval now c =
     (case claims c of
        None \<Rightarrow> (None, c, [Sleep 50])
      | Some cs \<Rightarrow>
          (case Consume_scan cs None of
             (None, cs') \<Rightarrow> (None, c\<lparr>claims := Some cs'\<rparr>, [Sleep 50])
           | (Some msg, cs') \<Rightarrow>
               (let p = sint (Partition msg) in
                case map_of cs' p of
                  None \<Rightarrow> (None, c\<lparr>claims := Some cs'\<rparr>, [])
                | Some claim \<Rightarrow>
                    if claimed claim = 1 then
                      (let claim1 = claim\<lparr>offsetCurrent := Offset msg + 1\<rparr> in
                       if lastHeartbeat claim1 \<le>s now - word_of_int HeartbeatInterval
                       then (Some (Value msg),
                             c\<lparr>claims := Some (AList.update p (claim1\<lparr>lastHeartbeat := now\<rparr>) cs')\<rparr>,
                             [Go p (GoMarshalHeartbeat (Topic msg) p (Offset msg))])
                       else (Some (Value msg),
                             c\<lparr>claims := Some (AList.update p claim1 cs')\<rparr>, []))
                    else (None, c\<lparr>claims := Some cs'\<rparr>, []))))"

fun Consumer_Consume ::
  "int \<Rightarrow> (nat \<Rightarrow> int64) \<Rightarrow> nat \<Rightarrow> Consumer \<Rightarrow> (8 word list \<times> Consumer \<times> event list) option" where
  "Consumer_Consume HeartbeatInterval clock 0 c = None"
| "Consumer_Consume HeartbeatInterval clock (Suc n) c =
     (case Consume_pass HeartbeatInterval (clock n) c of
        (Some payload, c', evs) \<Rightarrow> Some (payload, c', evs)
      | (None, c', evs) \<Rightarrow>
          (case Consumer_Consume HeartbeatInterval clock n c' of
             None \<Rightarrow> None
           | Some (payload, c'', evs') \<Rightarrow> Some (payload, c'', evs @ evs')))"

subsection \<open>Events of one kind\<close>

definition is_ReleasePartition :: "event \<Rightarrow> bool" where
  "is_ReleasePartition e = (case e of CallReleasePartition t p off \<Rightarrow> True | _ \<Rightarrow> False)"

definition is_Heartbeat_of :: "int \<Rightarrow> event \<Rightarrow> bool" where
  "is_Heartbeat_of p e = (case e of CallHeartbeat t q off \<Rightarrow> q = p | _ \<Rightarrow> False)"

definition is_GoRelease :: "event \<Rightarrow> bool" where
  "is_GoRelease e = (case e of Go p GoRelease \<Rightarrow> True | _ \<Rightarrow> False)"

definition is_fetch :: "event \<Rightarrow> bool" where
  "is_fetch e = (case e of CallGetPartitionOffsets t p \<Rightarrow> True | _ \<Rightarrow> False)"

definition is_try :: "event \<Rightarrow> bool" where
  "is_try e = (case e of TryClaimPartition p ok \<Rightarrow> True | _ \<Rightarrow> False)"

definition is_success :: "event \<Rightarrow> bool" where
  "is_success e = (case e of TryClaimPartition p ok \<Rightarrow> ok | _ \<Rightarrow> False)"

definition is_StoreClaimed :: "event \<Rightarrow> bool" where
  "is_StoreClaimed e = (case e of StoreClaimed p v \<Rightarrow> True | _ \<Rightarrow> False)"

definition is_DeleteClaim :: "event \<Rightarrow> bool" where
  "is_DeleteClaim e = (case e of DeleteClaim p \<Rightarrow> True | _ \<Rightarrow> False)"

subsection \<open>Closed forms that the statements use\<close>

text \<open>
  The outcome of \<^verbatim>\<open>tryClaimPartition\<close> read off the marshaler: the offset the claim
  starts at, whether every step succeeds, and the claim that is stored then.
\<close>

definition start_offset :: "int64 \<Rightarrow> int64 \<Rightarrow> int64" where
  "start_offset oEarly oCur = (if oCur <s oEarly then oEarly else oCur)"

definition tryClaim_succeeds :: "marshaler \<Rightarrow> string \<Rightarrow> int \<Rightarrow> bool" where
  "tryClaim_succeeds m t p =
     (\<not> 0 <s GetPartitionClaim m t p \<and>
      (case GetPartitionOffsets m t p of
         Inl err \<Rightarrow> False
       | Inr (oEarly, oLate, oCur) \<Rightarrow>
           ClaimPartition m t p \<and>
           Heartbeat m t p (start_offset oEarly oCur) = None \<and>
           kafkaConsumer m t (word_of_int p) (start_offset oEarly oCur) = None))"

definition stored_consumerClaim ::
  "string \<Rightarrow> int \<Rightarrow> int64 \<Rightarrow> int64 \<Rightarrow> int64 \<Rightarrow> int64 \<Rightarrow> consumerClaim" where
  "stored_consumerClaim t p oEarly oLate oCur now =
     \<lparr> topic = t, partID = p, claimed = 1, lastHeartbeat = now, messages = [],
       cyclesBehind = 0, offsetCurrent = start_offset oEarly oCur, offsetEarliest = oEarly,
       offsetLatest = oLate, startOffset = start_offset oEarly oCur, startTime = now \<rparr>"

text \<open>
  One entry of the map under \<^verbatim>\<open>Consumer.updateOffsets\<close>: whether its fetch succeeds, and
  the entry with the fetched offsets.
\<close>

definition fetch_ok :: "marshaler \<Rightarrow> string \<Rightarrow> int \<times> consumerClaim \<Rightarrow> bool" where
  "fetch_ok m t e = (case GetPartitionOffsets m t (fst e) of Inl err \<Rightarrow> False | Inr r \<Rightarrow> True)"

definition refreshed :: "marshaler \<Rightarrow> string \<Rightarrow> int \<times> consumerClaim \<Rightarrow> int \<times> consumerClaim" where
  "refreshed m t e =
     (case GetPartitionOffsets m t (fst e) of
        Inl err \<Rightarrow> e
      | Inr (oEarly, oLate, oCur) \<Rightarrow>
          (fst e, (snd e)\<lparr>offsetEarliest := oEarly, offsetLatest := oLate\<rparr>))"

text \<open>What a refresh may do to one entry: keep it, or store the fetched offsets.\<close>

definition refresh_frame ::
  "marshaler \<Rightarrow> string \<Rightarrow> int \<times> consumerClaim \<Rightarrow> int \<times> consumerClaim \<Rightarrow> bool" where
  "refresh_frame m t e e' =
     (fst e' = fst e
      \<and> offsetCurrent (snd e') = offsetCurrent (snd e)
      \<and> claimed (snd e') = claimed (snd e)
      \<and> (if fetch_ok m t e then e' = e \<or> e' = refreshed m t e else e' = e))"

text \<open>The partition the sweep visits in its pass \<open>j\<close>.\<close>

definition visited :: "Consumer \<Rightarrow> int \<Rightarrow> int \<Rightarrow> int" where
  "visited c offset j = go_rem (wrap64 (j + offset)) (partitions c)"

text \<open>
  The scan of \<^verbatim>\<open>Consume\<close> in closed form: the messages it takes, in the order of the scan,
  and the map it leaves. \<open>buffered\<close> lists the messages in the channels of a consumer.
\<close>

definition dequeued :: "(int \<times> consumerClaim) list \<Rightarrow> message list" where
  "dequeued cs = concat (map (\<lambda>e. take 1 (messages (snd e))) cs)"

definition after_scan :: "(int \<times> consumerClaim) list \<Rightarrow> (int \<times> consumerClaim) list" where
  "after_scan cs = map (\<lambda>e. (fst e, (snd e)\<lparr>messages := drop 1 (messages (snd e))\<rparr>)) cs"

definition buffered :: "Consumer \<Rightarrow> message list" where
  "buffered c = (case claims c of None \<Rightarrow> [] | Some cs \<Rightarrow> concat (map (\<lambda>e. messages (snd e)) cs))"

subsection \<open>Auxiliary notions of the proofs\<close>

text \<open>The invariant of the loop of \<^verbatim>\<open>average\<close>, over the valid samples read so far.\<close>

definition average_inv :: "int list \<Rightarrow> int64 \<times> int64 \<times> int64 \<Rightarrow> bool" where
  "average_inv V acc =
     (case acc of (mn, mx, ct) \<Rightarrow>
        ct = of_nat (length V) \<and>
        (if V = [] then mn = 0 \<and> mx = 0
         else 0 <s mn \<and> 0 <s mx \<and> sint mn = Min (set V) \<and> sint mx = Max (set V)))"

text \<open>
  The measure of the concurrent \<^verbatim>\<open>Release\<close>: the calls of \<^verbatim>\<open>ReleasePartition\<close> made, the
  callers between their compare-and-swap and their call, and one more while the flag
  is still 1.
\<close>

definition Release_calls :: "claim \<times> event list \<Rightarrow> nat" where
  "Release_calls s = length (filter is_ReleasePartition (snd s))"

definition Release_pending :: "release_pc list \<Rightarrow> nat" where
  "Release_pending pcs = length (filter (\<lambda>pc. pc = AtReleasePartition) pcs)"

definition Release_active :: "claim \<times> event list \<Rightarrow> nat" where
  "Release_active s = (if claimed (fst s) = 1 then 1 else 0)"

subsection \<open>Concrete inputs\<close>

definition marshaler_ok :: marshaler where
  "marshaler_ok =
     \<lparr> GetPartitionClaim = (\<lambda>t p. 0), GetPartitionOffsets = (\<lambda>t p. Inr (0, 0, 0)),
       ClaimPartition = (\<lambda>t p. True), Heartbeat = (\<lambda>t p off. None),
       ReleasePartition = (\<lambda>t p off. None), kafkaConsumer = (\<lambda>t p off. None) \<rparr>"

definition marshaler_heartbeat_down :: marshaler where
  "marshaler_heartbeat_down = marshaler_ok\<lparr>Heartbeat := (\<lambda>t p off. Some (ErrOther ''down''))\<rparr>"

definition marshaler_no_broker :: marshaler where
  "marshaler_no_broker = marshaler_ok\<lparr>kafkaConsumer := (\<lambda>t p off. Some (ErrOther ''no broker''))\<rparr>"

definition marshaler_fetch_fails_at :: "int \<Rightarrow> marshaler" where
  "marshaler_fetch_fails_at q =
     marshaler_ok\<lparr>GetPartitionOffsets :=
       (\<lambda>t p. if p = q then Inl (ErrOther ''fetch'') else Inr (3, 50, 9))\<rparr>"

definition marshaler_race_lost_at :: "int \<Rightarrow> marshaler" where
  "marshaler_race_lost_at q = marshaler_ok\<lparr>ClaimPartition := (\<lambda>t p. p \<noteq> q)\<rparr>"

definition claim_example :: claim where
  "claim_example =
     \<lparr> topic = ''t'', partID = 2, claimed = 1, lastHeartbeat = 100, messages = [],
       cyclesBehind = 0, offsetCurrent = 7, offsetEarliest = 1, offsetLatest = 12,
       offsetCurrentHistory = replicate 10 0, offsetLatestHistory = replicate 10 0 \<rparr>"

text \<open>The ring buffers of scenario 4 of the specification.\<close>

definition claim_lagging :: claim where
  "claim_lagging = claim_example
     \<lparr> offsetCurrent := 5, offsetLatest := 100,
       offsetCurrentHistory := [1, 2, 3, 4, 5, 5, 5, 5, 5, 5],
       offsetLatestHistory := [10, 20, 30, 40, 50, 60, 70, 80, 90, 100] \<rparr>"

definition consumerClaim_example :: consumerClaim where
  "consumerClaim_example =
     \<lparr> topic = ''t'', partID = 2, claimed = 1, lastHeartbeat = 100, messages = [],
       cyclesBehind = 0, offsetCurrent = 7, offsetEarliest = 1, offsetLatest = 12,
       startOffset = 7, startTime = 100 \<rparr>"

definition message_a :: message where
  "message_a = \<lparr> Topic = ''t'', Partition = 1, Offset = 0, Value = [97] \<rparr>"

definition message_b :: message where
  "message_b = \<lparr> Topic = ''t'', Partition = 3, Offset = 0, Value = [98] \<rparr>"

definition Consumer_empty :: Consumer where
  "Consumer_empty = \<lparr> Consumer_topic = ''t'', partitions = 4, claims = Some [], behavior = CbBalanced \<rparr>"

definition Consumer_three :: Consumer where
  "Consumer_three =
     \<lparr> Consumer_topic = ''t'', partitions = 4,
       claims = Some [(0, consumerClaim_example\<lparr>partID := 0\<rparr>),
                      (2, consumerClaim_example),
                      (3, consumerClaim_example\<lparr>partID := 3\<rparr>)],
       behavior = CbAggressive \<rparr>"

text \<open>
  Three claims; the pumps of partitions 0 and 2 met the out-of-range error and stored 0
  in their flags.
\<close>

definition Consumer_two_flagged :: Consumer where
  "Consumer_two_flagged =
     \<lparr> Consumer_topic = ''t'', partitions = 4,
       claims = Some [(0, consumerClaim_example\<lparr>partID := 0, claimed := 0\<rparr>),
                      (2, consumerClaim_example\<lparr>claimed := 0\<rparr>),
                      (3, consumerClaim_example\<lparr>partID := 3\<rparr>)],
       behavior = CbAggressive \<rparr>"

definition Consumer_two_buffered :: Consumer where
  "Consumer_two_buffered =
     Consumer_empty
       \<lparr>behavior := CbAggressive,
         claims := Some [(1, (stored_consumerClaim ''t'' 1 0 0 0 100)\<lparr>messages := [message_a]\<rparr>),
                         (2, stored_consumerClaim ''t'' 2 0 0 0 100),
                         (3, (stored_consumerClaim ''t'' 3 0 0 0 100)\<lparr>messages := [message_b]\<rparr>),
                         (0, stored_consumerClaim ''t'' 0 0 0 0 100)]\<rparr>"

definition Consumer_after_Consume :: Consumer where
  "Consumer_after_Consume =
     Consumer_empty
       \<lparr>behavior := CbAggressive,
         claims := Some [(1, stored_consumerClaim ''t'' 1 0 0 0 100),
                         (2, stored_consumerClaim ''t'' 2 0 0 0 100),
                         (3, (stored_consumerClaim ''t'' 3 0 0 0 100)\<lparr>offsetCurrent := 1\<rparr>),
                         (0, stored_consumerClaim ''t'' 0 0 0 0 100)]\<rparr>"

section \<open>Properties\<close>

subsection \<open>The velocity estimator\<close>

lemma not_sle_zero: "(\<not> (v::int64) \<le>s 0) = (0 < sint v)"
  by (simp add: word_sle_eq not_le)

lemma sless_zero: "((0::int64) <s v) = (0 < sint v)"
  by (simp add: word_sless_alt)

lemma average_loop_append:
  "average_loop (xs @ ys) mn mx ct =
     (case average_loop xs mn mx ct of (a, b, c) \<Rightarrow> average_loop ys a b c)"
  by (induction xs arbitrary: mn mx ct) auto

lemma average_loop_snoc:
  "average_loop (xs @ [v]) 0 0 0 =
     (case average_loop xs 0 0 0 of (mn, mx, ct) \<Rightarrow>
        if v \<le>s 0 then (mn, mx, ct)
        else (if mn = 0 \<or> v <s mn then v else mn,
              if mx = 0 \<or> mx <s v then v else mx, ct + 1))"
  by (simp add: average_loop_append split: prod.splits)

lemma valid_samples_snoc:
  "valid_samples (vals @ [v]) = valid_samples vals @ (if 0 < sint v then [sint v] else [])"
  by (simp add: valid_samples_def)

lemma average_loop_inv: "average_inv (valid_samples vals) (average_loop vals 0 0 0)"
proof (induction vals rule: rev_induct)
  case Nil
  show ?case by (simp add: average_inv_def valid_samples_def)
next
  case (snoc v vals)
  obtain mn mx ct where acc: "average_loop vals 0 0 0 = (mn, mx, ct)"
    by (cases "average_loop vals 0 0 0") auto
  show ?case
  proof (cases "v \<le>s 0")
    case True
    then have "valid_samples (vals @ [v]) = valid_samples vals"
      by (simp add: valid_samples_snoc not_sle_zero [symmetric])
    with snoc True acc show ?thesis
      by (simp add: average_loop_snoc)
  next
    case False
    then have pos: "0 < sint v" by (simp add: not_sle_zero)
    then have V: "valid_samples (vals @ [v]) = valid_samples vals @ [sint v]"
      by (simp add: valid_samples_snoc)
    show ?thesis
    proof (cases "valid_samples vals = []")
      case True
      with snoc acc False pos V show ?thesis
        by (simp add: average_loop_snoc average_inv_def sless_zero)
    next
      case nonempty: False
      with snoc acc have inv: "0 <s mn" "0 <s mx"
        "sint mn = Min (set (valid_samples vals))"
        "sint mx = Max (set (valid_samples vals))"
        "ct = of_nat (length (valid_samples vals))"
        by (simp_all add: average_inv_def)
      from inv(1,2) have nz: "mn \<noteq> 0" "mx \<noteq> 0" by auto
      have fin: "finite (set (valid_samples vals))" "set (valid_samples vals) \<noteq> {}"
        using nonempty by auto
      have img: "set (valid_samples vals @ [sint v]) = insert (sint v) (set (valid_samples vals))"
        by simp
      have "Min (insert (sint v) (set (valid_samples vals))) = min (sint v) (sint mn)"
        unfolding inv(3) by (rule Min_insert [OF fin])
      then have mn': "sint (if v <s mn then v else mn) = Min (set (valid_samples vals @ [sint v]))"
        unfolding img by (simp only: word_sless_alt min_def split: if_splits) auto
      have "Max (insert (sint v) (set (valid_samples vals))) = max (sint v) (sint mx)"
        unfolding inv(4) by (rule Max_insert [OF fin])
      then have mx': "sint (if mx <s v then v else mx) = Max (set (valid_samples vals @ [sint v]))"
        unfolding img by (simp only: word_sless_alt max_def split: if_splits) auto
      have p1: "0 <s (if v <s mn then v else mn)" and p2: "0 <s (if mx <s v then v else mx)"
        using pos inv(1,2) by (simp_all add: sless_zero)
      have res: "average_loop (vals @ [v]) 0 0 0 =
                   (if v <s mn then v else mn, if mx <s v then v else mx, ct + 1)"
        using acc False nz by (simp add: average_loop_snoc)
      have len: "ct + 1 = of_nat (length (valid_samples vals @ [sint v]))"
        using inv(5) by simp
      have ne: "valid_samples vals @ [sint v] \<noteq> []" by simp
      show ?thesis
        unfolding V res average_inv_def prod.case
        using len p1 p2 mn' mx' ne by (simp only: if_False simp_thms)
    qed
  qed
qed

lemma sint_of_nat_small:
  assumes "n < 2 ^ 63"
  shows "sint (of_nat n :: int64) = int n"
proof -
  have "int n < 2 ^ 63" using assms by (simp add: of_nat_less_numeral_power_cancel_iff)
  then show ?thesis
    by (simp add: signed_of_nat signed_take_bit_int_eq_self)
qed

lemma sint_sub_nonneg:
  fixes a b :: int64
  assumes "0 \<le> sint a" "0 \<le> sint b"
  shows "sint (a - b) = sint a - sint b"
proof -
  have "sint a < 2 ^ 63" "sint b < 2 ^ 63"
    using sint_lt [of a] sint_lt [of b] by simp_all
  with assms have "- (2 ^ 63) \<le> sint a - sint b" "sint a - sint b < 2 ^ 63"
    by linarith+
  then show ?thesis
    by (simp add: sint_word_diff signed_take_bit_int_eq_self)
qed

lemma length_valid_samples: "length (valid_samples vals) \<le> length vals"
  by (simp add: valid_samples_def)

lemma average_loop_result:
  assumes len: "length vals < 2 ^ 63"
  shows "\<exists>mn mx ct. average_loop vals 0 0 0 = (mn, mx, ct)
           \<and> sint ct = int (length (valid_samples vals))
           \<and> (ct = 0) = (valid_samples vals = [])
           \<and> (valid_samples vals \<noteq> [] \<longrightarrow>
                sint (mx - mn) = Max (set (valid_samples vals)) - Min (set (valid_samples vals)))"
proof -
  obtain mn mx ct where acc: "average_loop vals 0 0 0 = (mn, mx, ct)"
    by (cases "average_loop vals 0 0 0") auto
  have inv: "average_inv (valid_samples vals) (mn, mx, ct)"
    using average_loop_inv [of vals] acc by simp
  have small: "length (valid_samples vals) < 2 ^ 63"
    using len length_valid_samples [of vals] by linarith
  have ct: "ct = of_nat (length (valid_samples vals))"
    using inv by (simp add: average_inv_def)
  have sct: "sint ct = int (length (valid_samples vals))"
    unfolding ct by (rule sint_of_nat_small [OF small])
  have z: "(ct = 0) = (valid_samples vals = [])"
  proof
    assume "ct = 0"
    then have "sint ct = 0" by simp
    with sct show "valid_samples vals = []" by simp
  next
    assume "valid_samples vals = []"
    then show "ct = 0" using ct by simp
  qed
  have d: "sint (mx - mn) = Max (set (valid_samples vals)) - Min (set (valid_samples vals))"
    if "valid_samples vals \<noteq> []"
  proof -
    from inv that have "0 <s mn" "0 <s mx" "sint mn = Min (set (valid_samples vals))"
      "sint mx = Max (set (valid_samples vals))"
      by (simp_all add: average_inv_def)
    then show ?thesis
      using sint_sub_nonneg [of mx mn] by (simp add: sless_zero)
  qed
  from acc sct z d show ?thesis by blast
qed

lemma average_refines:
  assumes "length vals < 2 ^ 63"
  shows "average F vals = velocity_spec F vals"
proof -
  from average_loop_result [OF assms]
  obtain mn mx ct where r: "average_loop vals 0 0 0 = (mn, mx, ct)"
    "sint ct = int (length (valid_samples vals))"
    "(ct = 0) = (valid_samples vals = [])"
    "valid_samples vals \<noteq> [] \<longrightarrow>
           sint (mx - mn) = Max (set (valid_samples vals)) - Min (set (valid_samples vals))"
    by blast
  show ?thesis
  proof (cases "valid_samples vals = []")
    case True
    with r show ?thesis by (simp add: average_def velocity_spec_def)
  next
    case False
    with r show ?thesis by (simp add: average_def velocity_spec_def Let_def)
  qed
qed

lemma velocity_spec_equal_samples:
  assumes zdiv: "\<forall>n. 0 < n \<longrightarrow> fdiv F (f64 F 0) (f64 F n) = f64 F 0"
    and eq: "\<forall>a\<in>set (valid_samples vals). \<forall>b\<in>set (valid_samples vals). a = b"
  shows "velocity_spec F vals = f64 F 0"
proof (cases "valid_samples vals = []")
  case True
  then show ?thesis by (simp add: velocity_spec_def)
next
  case False
  then have fin: "finite (set (valid_samples vals))" "set (valid_samples vals) \<noteq> {}"
    by auto
  have "Max (set (valid_samples vals)) \<in> set (valid_samples vals)"
    "Min (set (valid_samples vals)) \<in> set (valid_samples vals)"
    using fin by (rule Max_in, rule Min_in)
  with eq have "Max (set (valid_samples vals)) - Min (set (valid_samples vals)) = 0"
    by auto
  moreover have "0 < int (length (valid_samples vals))" using False by simp
  ultimately show ?thesis
    using False zdiv by (simp add: velocity_spec_def Let_def)
qed

text \<open>
  Claim C5. For a sequence of \<^verbatim>\<open>int64\<close> samples (a Go slice: fewer than \<open>2^63\<close>
  elements), \<^verbatim>\<open>average\<close> ignores the non-positive samples and returns
  \<open>(max - min) / count_of_valid\<close> over the positive ones, converted and divided as
  \<^verbatim>\<open>float64\<close>: it is \<open>velocity_spec\<close>, and no \<^verbatim>\<open>int64\<close> operation of the loop wraps. It
  returns 0 when no sample is positive, when exactly one is, and when all positive
  samples are equal. The last two use the one fact about \<^verbatim>\<open>float64\<close> that \<open>0 / n = 0\<close>
  for a positive count \<open>n\<close>.
\<close>

theorem average_velocity:
  assumes len: "length vals < 2 ^ 63"
    and zdiv: "\<forall>n. 0 < n \<longrightarrow> fdiv F (f64 F 0) (f64 F n) = f64 F 0"
  shows "average F vals = velocity_spec F vals
       \<and> (valid_samples vals = [] \<longrightarrow> average F vals = f64 F 0)
       \<and> (length (valid_samples vals) = 1 \<longrightarrow> average F vals = f64 F 0)
       \<and> ((\<forall>a\<in>set (valid_samples vals). \<forall>b\<in>set (valid_samples vals). a = b)
            \<longrightarrow> average F vals = f64 F 0)"
proof -
  have ref: "average F vals = velocity_spec F vals"
    using len by (rule average_refines)
  have none: "average F vals = f64 F 0" if "valid_samples vals = []"
    using that by (simp add: ref velocity_spec_def)
  have equal: "average F vals = f64 F 0"
    if "\<forall>a\<in>set (valid_samples vals). \<forall>b\<in>set (valid_samples vals). a = b"
    using velocity_spec_equal_samples [OF zdiv that] by (simp add: ref)
  have one: "average F vals = f64 F 0" if "length (valid_samples vals) = 1"
  proof -
    from that obtain a where "valid_samples vals = [a]"
      by (cases "valid_samples vals") auto
    then have "\<forall>a\<in>set (valid_samples vals). \<forall>b\<in>set (valid_samples vals). a = b"
      by simp
    then show ?thesis by (rule equal)
  qed
  from ref none one equal show ?thesis by blast
qed

theorem average_velocity_witness:
  "average real_ops [1, 2, 3, 4, 5, 5, 5, 5, 5, 5] = velocity_spec real_ops [1, 2, 3, 4, 5, 5, 5, 5, 5, 5]
   \<and> average real_ops [0, 0, 0] = 0
   \<and> average real_ops [0, 7, - 2] = 0
   \<and> average real_ops [4, 0, 4, 4] = 0"
  using average_velocity [of "[1, 2, 3, 4, 5, 5, 5, 5, 5, 5]" real_ops]
    average_velocity [of "[0, 0, 0]" real_ops]
    average_velocity [of "[0, 7, - 2]" real_ops]
    average_velocity [of "[4, 0, 4, 4]" real_ops]
  by (simp add: real_ops_def valid_samples_def)

subsection \<open>Release\<close>

lemma Release_pending_update:
  "i < length pcs \<Longrightarrow>
     Release_pending (pcs[i := x]) + (if pcs ! i = AtReleasePartition then 1 else 0)
       = Release_pending pcs + (if x = AtReleasePartition then 1 else 0)"
proof (induction pcs arbitrary: i)
  case Nil
  then show ?case by simp
next
  case (Cons pc pcs)
  show ?case
  proof (cases i)
    case 0
    then show ?thesis by (simp add: Release_pending_def)
  next
    case (Suc j)
    with Cons.prems have "j < length pcs" by simp
    from Cons.IH [OF this] Suc show ?thesis
      by (auto simp: Release_pending_def split: if_splits)
  qed
qed

lemma Release_step_measure:
  assumes "i < length pcs" and "Release_step m s (pcs ! i) = (s', pc')"
  shows "Release_calls s' + Release_pending (pcs[i := pc']) + Release_active s'
           \<le> Release_calls s + Release_pending pcs + Release_active s"
proof -
  obtain c evs where s: "s = (c, evs)" by (cases s)
  note upd = Release_pending_update [OF assms(1), of pc']
  show ?thesis
  proof (cases "pcs ! i")
    case AtCompareAndSwap
    with assms(2) s upd show ?thesis
      by (auto simp: CompareAndSwap_claimed_def Release_calls_def Release_active_def
               split: if_splits)
  next
    case AtReleasePartition
    with assms(2) s upd show ?thesis
      by (auto simp: Release_calls_def Release_active_def is_ReleasePartition_def)
  next
    case (Returned b)
    with assms(2) s upd show ?thesis
      by (auto simp: Release_calls_def Release_active_def)
  qed
qed

lemma Release_run_measure:
  "Release_run m sched (s, pcs) = (s', pcs') \<Longrightarrow> list_all stays_released (workers sched) \<Longrightarrow>
     Release_calls s' + Release_pending pcs' + Release_active s'
       \<le> Release_calls s + Release_pending pcs + Release_active s"
proof (induction sched arbitrary: s pcs)
  case Nil
  then show ?case by simp
next
  case (Cons a sched)
  show ?case
  proof (cases a)
    case (Caller i)
    with Cons.prems have w: "list_all stays_released (workers sched)" by simp
    show ?thesis
    proof (cases "i < length pcs")
      case False
      with Caller Cons.prems have "Release_run m sched (s, pcs) = (s', pcs')" by simp
      then show ?thesis using w by (rule Cons.IH)
    next
      case True
      obtain s1 pc1 where step: "Release_step m s (pcs ! i) = (s1, pc1)"
        by (cases "Release_step m s (pcs ! i)")
      with True Caller Cons.prems
      have "Release_run m sched (s1, pcs[i := pc1]) = (s', pcs')"
        by simp
      from Cons.IH [OF this w] Release_step_measure [OF True step] show ?thesis
        by linarith
    qed
  next
    case (Worker g)
    obtain c evs where s: "s = (c, evs)" by (cases s)
    from Worker Cons.prems have g: "stays_released g"
      and w: "list_all stays_released (workers sched)" by simp_all
    from Worker s Cons.prems have "Release_run m sched ((g c, evs), pcs) = (s', pcs')"
      by simp
    from Cons.IH [OF this w]
    have "Release_calls s' + Release_pending pcs' + Release_active s'
            \<le> Release_calls (g c, evs) + Release_pending pcs + Release_active (g c, evs)" .
    moreover have "Release_active (g c, evs) \<le> Release_active (c, evs)"
      using g by (simp add: Release_active_def stays_released_def)
    moreover have "Release_calls (g c, evs) = Release_calls (c, evs)"
      by (simp add: Release_calls_def)
    ultimately show ?thesis unfolding s by linarith
  qed
qed

lemma Release_run_calls:
  assumes "list_all stays_released (workers sched)"
  shows "length (filter is_ReleasePartition
             (snd (fst (Release_run m sched ((c, []), replicate n AtCompareAndSwap))))) \<le> 1"
proof -
  obtain s' pcs' where r: "Release_run m sched ((c, []), replicate n AtCompareAndSwap) = (s', pcs')"
    by (cases "Release_run m sched ((c, []), replicate n AtCompareAndSwap)")
  have "Release_pending (replicate n AtCompareAndSwap) = 0"
    by (simp add: Release_pending_def)
  moreover have "Release_calls (c, []) = 0" by (simp add: Release_calls_def)
  moreover have "Release_active (c, []) \<le> 1" by (simp add: Release_active_def)
  ultimately have "Release_calls s' \<le> 1"
    using Release_run_measure [OF r assms] by linarith
  with r show ?thesis by (simp add: Release_calls_def)
qed

lemma Release_single_caller:
  "Release_run m [Caller 0, Caller 0] ((c, []), [AtCompareAndSwap]) =
     (case claim_Release m c of (r, c', evs) \<Rightarrow> ((c', evs), [Returned r]))"
  by (simp add: claim_Release_def CompareAndSwap_claimed_def split: option.splits)

text \<open>The methods that the workers of a claim run leave a released claim released.\<close>

lemma claim_methods_stay_released:
  "stays_released (\<lambda>c. snd (claim_Consumed off c))"
  "stays_released (\<lambda>c. fst (claim_heartbeat m now c))"
  "stays_released (\<lambda>c. fst (snd (claim_healthCheck F H now c)))"
  "stays_released (\<lambda>c. fst (snd (claim_messagePump_pass res c)))"
  "stays_released (\<lambda>c. case claim_updateOffsets m ctr c of Inl e \<Rightarrow> c | Inr (r, c', evs) \<Rightarrow> c')"
  "stays_released (\<lambda>c. fst (claim_setup m now c))"
  by (auto simp: stays_released_def claim_Consumed_def claim_heartbeat_def claim_healthCheck_def
        claim_messagePump_pass_def claim_updateOffsets_def claim_setup_def Let_def
        split: sum.splits option.splits if_splits)

text \<open>
  Claim C2. \<^verbatim>\<open>Release\<close> moves the flag from 1 to 0 by one compare-and-swap. When the
  flag was not 1 it returns false, changes nothing and calls nothing. When it was 1 the
  flag is 0 afterwards, \<^verbatim>\<open>ReleasePartition\<close> is called once with the claim's topic,
  partition and current offset, and the result is true exactly when that call returned
  no error. One caller run to its end is \<open>claim_Release\<close>. For any number \<open>n\<close> of
  concurrent callers and any schedule of their steps, interleaved with steps of other
  workers that leave a released claim released, \<^verbatim>\<open>ReleasePartition\<close> is called at most
  once.
\<close>

theorem Release_once:
  "(claimed c \<noteq> 1 \<longrightarrow> claim_Release m c = (False, c, []))
   \<and> (claimed c = 1 \<longrightarrow>
        claim_Release m c =
          (ReleasePartition m (topic c) (partID c) (offsetCurrent c) = None,
           c\<lparr>claimed := 0\<rparr>,
           [CallReleasePartition (topic c) (partID c) (offsetCurrent c)]))
   \<and> Release_run m [Caller 0, Caller 0] ((c, []), [AtCompareAndSwap]) =
        (case claim_Release m c of (r, c', evs) \<Rightarrow> ((c', evs), [Returned r]))
   \<and> (list_all stays_released (workers sched) \<longrightarrow>
        length (filter is_ReleasePartition
                  (snd (fst (Release_run m sched ((c, []), replicate n AtCompareAndSwap))))) \<le> 1)"
proof -
  have a: "claim_Release m c = (False, c, [])" if "claimed c \<noteq> 1"
    using that by (simp add: claim_Release_def CompareAndSwap_claimed_def)
  have b: "claim_Release m c =
          (ReleasePartition m (topic c) (partID c) (offsetCurrent c) = None,
           c\<lparr>claimed := 0\<rparr>,
           [CallReleasePartition (topic c) (partID c) (offsetCurrent c)])" if "claimed c = 1"
    using that by (simp add: claim_Release_def CompareAndSwap_claimed_def split: option.splits)
  from a b Release_single_caller [of m c] Release_run_calls [of sched m c n]
  show ?thesis by blast
qed

theorem Release_once_witness:
  "claim_Release marshaler_ok claim_example =
     (True, claim_example\<lparr>claimed := 0\<rparr>, [CallReleasePartition ''t'' 2 7])
   \<and> claim_Release (marshaler_ok\<lparr>ReleasePartition := (\<lambda>t p off. Some (ErrOther ''down''))\<rparr>)
         claim_example =
       (False, claim_example\<lparr>claimed := 0\<rparr>, [CallReleasePartition ''t'' 2 7])
   \<and> claim_Release marshaler_ok (claim_example\<lparr>claimed := 0\<rparr>) =
       (False, claim_example\<lparr>claimed := 0\<rparr>, [])
   \<and> Release_run marshaler_ok
         [Caller 0, Worker (\<lambda>c. snd (claim_Consumed 41 c)), Caller 1, Caller 2,
          Worker (\<lambda>c. fst (claim_heartbeat marshaler_ok 200 c)), Caller 1, Caller 0, Caller 2]
         ((claim_example, []), replicate 3 AtCompareAndSwap)
       = ((claim_example\<lparr>claimed := 0, lastHeartbeat := 200\<rparr>,
           [CallReleasePartition ''t'' 2 7]),
          [Returned True, Returned False, Returned False])"
proof -
  let ?sched = "[Caller 0, Worker (\<lambda>c. snd (claim_Consumed 41 c)), Caller 1, Caller 2,
          Worker (\<lambda>c. fst (claim_heartbeat marshaler_ok 200 c)), Caller 1, Caller 0, Caller 2]"
  have w: "list_all stays_released (workers ?sched)"
    by (simp add: claim_methods_stay_released)
  have run: "Release_run marshaler_ok ?sched ((claim_example, []), replicate 3 AtCompareAndSwap)
       = ((claim_example\<lparr>claimed := 0, lastHeartbeat := 200\<rparr>,
           [CallReleasePartition ''t'' 2 7]),
          [Returned True, Returned False, Returned False])"
    by (simp add: claim_example_def marshaler_ok_def CompareAndSwap_claimed_def claim_Consumed_def
          claim_heartbeat_def eval_nat_numeral)
  note a = Release_once [of claim_example marshaler_ok ?sched 3]
  note b = Release_once [of claim_example
      "marshaler_ok\<lparr>ReleasePartition := (\<lambda>t p off. Some (ErrOther ''down''))\<rparr>" "[]" 0]
  note c = Release_once [of "claim_example\<lparr>claimed := 0\<rparr>" marshaler_ok "[]" 0]
  have f: "claimed claim_example = 1" "claimed (claim_example\<lparr>claimed := 0\<rparr>) \<noteq> 1"
    "topic claim_example = ''t''" "partID claim_example = 2" "offsetCurrent claim_example = 7"
    by (simp_all add: claim_example_def)
  from a f have 1: "claim_Release marshaler_ok claim_example =
     (True, claim_example\<lparr>claimed := 0\<rparr>, [CallReleasePartition ''t'' 2 7])"
    by (simp add: marshaler_ok_def)
  from b f have 2: "claim_Release
       (marshaler_ok\<lparr>ReleasePartition := (\<lambda>t p off. Some (ErrOther ''down''))\<rparr>) claim_example =
       (False, claim_example\<lparr>claimed := 0\<rparr>, [CallReleasePartition ''t'' 2 7])"
    by simp
  from c f have 3: "claim_Release marshaler_ok (claim_example\<lparr>claimed := 0\<rparr>) =
       (False, claim_example\<lparr>claimed := 0\<rparr>, [])"
    by blast
  from a w have "length (filter is_ReleasePartition
      (snd (fst (Release_run marshaler_ok ?sched
                   ((claim_example, []), replicate 3 AtCompareAndSwap))))) \<le> 1"
    by blast
  with 1 2 3 run show ?thesis by blast
qed

subsection \<open>heartbeat\<close>

lemma heartbeat_always_sets_lastHeartbeat:
  "lastHeartbeat (fst (claim_heartbeat m now c)) = now"
  by (simp add: claim_heartbeat_def Let_def)

lemma heartbeat_schedules_release_on_failure:
  "(Go (partID c) GoRelease \<in> set (snd (claim_heartbeat m now c)))
     = (Heartbeat m (topic c) (partID c) (offsetCurrent c) \<noteq> None)"
  by (auto simp: claim_heartbeat_def Let_def)

lemma setup_failed_heartbeat_keeps_lastHeartbeat:
  "Heartbeat m (topic c) (partID c)
     (if offsetCurrent c <s offsetEarliest c then offsetEarliest c else offsetCurrent c) = Some err
   \<Longrightarrow> lastHeartbeat (fst (claim_setup m now c)) = lastHeartbeat c"
  by (simp add: claim_setup_def Let_def split: if_splits)

text \<open>
  Claim C3 says that \<^verbatim>\<open>heartbeat\<close> leaves \<^verbatim>\<open>lastHeartbeat\<close> as it was when the marshaler
  call fails. The source assigns it after the \<^verbatim>\<open>if\<close>, on both paths: with a marshaler
  whose \<^verbatim>\<open>Heartbeat\<close> fails, a claim last heartbeated at 100 and the clock at 200, the
  release is scheduled and \<^verbatim>\<open>lastHeartbeat\<close> becomes 200. (\<^verbatim>\<open>setup\<close> returns before the
  assignment when its heartbeat fails.)
\<close>

theorem heartbeat_failed_sets_lastHeartbeat:
  "Heartbeat marshaler_heartbeat_down (topic claim_example) (partID claim_example)
     (offsetCurrent claim_example) = Some (ErrOther ''down'')
   \<and> lastHeartbeat claim_example = 100
   \<and> claim_heartbeat marshaler_heartbeat_down 200 claim_example =
       (claim_example\<lparr>lastHeartbeat := 200\<rparr>, [CallHeartbeat ''t'' 2 7, Go 2 GoRelease])
   \<and> lastHeartbeat (fst (claim_heartbeat marshaler_heartbeat_down 200 claim_example)) = 200"
  by (simp add: claim_heartbeat_def marshaler_heartbeat_down_def marshaler_ok_def
        claim_example_def)

subsection \<open>healthCheck\<close>

text \<open>
  Claim C4. One \<^verbatim>\<open>healthCheck\<close> evaluates, in this order: (1) when
  \<open>lastHeartbeat < now - HeartbeatInterval\<close> a release is scheduled and the check is
  unhealthy, whatever the velocities; (2) else when \<open>offsetCurrent \<ge> offsetLatest\<close>
  \<open>cyclesBehind\<close> becomes 0 and the check is healthy; (3) else when the partition's
  velocity is at most the consumer's (both from \<^verbatim>\<open>average\<close> over the ring buffers)
  \<open>cyclesBehind\<close> becomes 0 and the check is healthy; (4) otherwise \<open>cyclesBehind\<close> is
  incremented, and the check is unhealthy with a release scheduled when the new value
  is at least 3, healthy otherwise. Nothing else of the claim changes. The increment is
  Go's on \<^verbatim>\<open>int\<close>; it is \<open>+ 1\<close> below the largest value.
\<close>

theorem healthCheck_cases:
  "(lastHeartbeat c <s now - word_of_int H \<longrightarrow>
      claim_healthCheck F H now c = (False, c, [Go (partID c) GoRelease]))
   \<and> (\<not> lastHeartbeat c <s now - word_of_int H \<and> offsetLatest c \<le>s offsetCurrent c \<longrightarrow>
      claim_healthCheck F H now c = (True, c\<lparr>cyclesBehind := 0\<rparr>, []))
   \<and> (\<not> lastHeartbeat c <s now - word_of_int H \<and> \<not> offsetLatest c \<le>s offsetCurrent c
        \<and> fle F (average F (offsetLatestHistory c)) (average F (offsetCurrentHistory c)) \<longrightarrow>
      claim_healthCheck F H now c = (True, c\<lparr>cyclesBehind := 0\<rparr>, []))
   \<and> (\<not> lastHeartbeat c <s now - word_of_int H \<and> \<not> offsetLatest c \<le>s offsetCurrent c
        \<and> \<not> fle F (average F (offsetLatestHistory c)) (average F (offsetCurrentHistory c)) \<longrightarrow>
      claim_healthCheck F H now c =
        (if 3 \<le> wrap64 (cyclesBehind c + 1)
         then (False, c\<lparr>cyclesBehind := wrap64 (cyclesBehind c + 1)\<rparr>, [Go (partID c) GoRelease])
         else (True, c\<lparr>cyclesBehind := wrap64 (cyclesBehind c + 1)\<rparr>, [])))
   \<and> (- (2 ^ 63) \<le> cyclesBehind c \<and> cyclesBehind c < 2 ^ 63 - 1 \<longrightarrow>
      wrap64 (cyclesBehind c + 1) = cyclesBehind c + 1)"
  by (simp add: claim_healthCheck_def claim_ConsumerVelocity_def claim_PartitionVelocity_def
        Let_def wrap64_def signed_take_bit_int_eq_self)

lemma average_loop_lagging:
  "average_loop [1, 2, 3, 4, 5, 5, 5, 5, 5, 5] 0 0 0 = (1, 5, 10)"
  "average_loop [10, 20, 30, 40, 50, 60, 70, 80, 90, 100] 0 0 0 = (10, 100, 10)"
  by (simp_all add: word_sle_eq word_sless_alt)

lemma average_lagging:
  "average F [1, 2, 3, 4, 5, 5, 5, 5, 5, 5] = fdiv F (f64 F 4) (f64 F 10)"
  "average F [10, 20, 30, 40, 50, 60, 70, 80, 90, 100] = fdiv F (f64 F 90) (f64 F 10)"
  by (simp_all add: average_def average_loop_lagging del: average_loop.simps)

theorem healthCheck_cases_witness:
  "claim_healthCheck real_ops 10 111 claim_lagging = (False, claim_lagging, [Go 2 GoRelease])
   \<and> claim_healthCheck real_ops 10 105 (claim_lagging\<lparr>offsetCurrent := 100\<rparr>)
       = (True, claim_lagging\<lparr>offsetCurrent := 100, cyclesBehind := 0\<rparr>, [])
   \<and> claim_healthCheck real_ops 10 105
         (claim_lagging\<lparr>offsetCurrentHistory := [10, 20, 30, 40, 50, 60, 70, 80, 90, 100]\<rparr>)
       = (True, claim_lagging\<lparr>offsetCurrentHistory := [10, 20, 30, 40, 50, 60, 70, 80, 90, 100],
                              cyclesBehind := 0\<rparr>, [])
   \<and> claim_healthCheck real_ops 10 105 claim_lagging
       = (True, claim_lagging\<lparr>cyclesBehind := 1\<rparr>, [])
   \<and> claim_healthCheck real_ops 10 105 (claim_lagging\<lparr>cyclesBehind := 2\<rparr>)
       = (False, claim_lagging\<lparr>cyclesBehind := 3\<rparr>, [Go 2 GoRelease])"
proof -
  note defs = claim_lagging_def claim_example_def
  have fle1: "fle real_ops (fdiv real_ops (f64 real_ops 90) (f64 real_ops 10))
                (fdiv real_ops (f64 real_ops 90) (f64 real_ops 10))"
    and fle2: "\<not> fle real_ops (fdiv real_ops (f64 real_ops 90) (f64 real_ops 10))
                (fdiv real_ops (f64 real_ops 4) (f64 real_ops 10))"
    by (simp_all add: real_ops_def)
  have w: "wrap64 (0 + 1) = 1" "wrap64 (2 + 1) = 3"
    by (simp_all add: wrap64_def)
  have a: "claim_healthCheck real_ops 10 111 claim_lagging = (False, claim_lagging, [Go 2 GoRelease])"
    using healthCheck_cases [of claim_lagging 111 10 real_ops]
    by (simp add: defs)
  have b: "claim_healthCheck real_ops 10 105 (claim_lagging\<lparr>offsetCurrent := 100\<rparr>)
       = (True, claim_lagging\<lparr>offsetCurrent := 100, cyclesBehind := 0\<rparr>, [])"
    using healthCheck_cases [of "claim_lagging\<lparr>offsetCurrent := 100\<rparr>" 105 10 real_ops]
    by (simp add: defs)
  have c: "claim_healthCheck real_ops 10 105
         (claim_lagging\<lparr>offsetCurrentHistory := [10, 20, 30, 40, 50, 60, 70, 80, 90, 100]\<rparr>)
       = (True, claim_lagging\<lparr>offsetCurrentHistory := [10, 20, 30, 40, 50, 60, 70, 80, 90, 100],
                              cyclesBehind := 0\<rparr>, [])"
    using healthCheck_cases [of "claim_lagging\<lparr>offsetCurrentHistory := [10, 20, 30, 40, 50, 60, 70, 80, 90, 100]\<rparr>" 105 10 real_ops]
      fle1
    by (simp add: defs average_lagging del: average_loop.simps)
  have d: "claim_healthCheck real_ops 10 105 claim_lagging
       = (True, claim_lagging\<lparr>cyclesBehind := 1\<rparr>, [])"
    using healthCheck_cases [of claim_lagging 105 10 real_ops] fle2
    by (simp add: defs average_lagging w del: average_loop.simps)
  have e: "claim_healthCheck real_ops 10 105 (claim_lagging\<lparr>cyclesBehind := 2\<rparr>)
       = (False, claim_lagging\<lparr>cyclesBehind := 3\<rparr>, [Go 2 GoRelease])"
    using healthCheck_cases [of "claim_lagging\<lparr>cyclesBehind := 2\<rparr>" 105 10 real_ops] fle2
    by (simp add: defs average_lagging w del: average_loop.simps)
  from a b c d e show ?thesis by blast
qed

subsection \<open>messagePump\<close>

text \<open>
  Claim C6 names both message pumps. In \<^verbatim>\<open>consumerClaim.messagePump\<close> the out-of-range
  error does not go through a \<^verbatim>\<open>Release\<close> operation (the type has none): the pump stores 0
  in the flag itself and returns. No \<^verbatim>\<open>go Release\<close> is among its events.
\<close>

theorem consumerClaim_messagePump_stores_flag:
  "claimed consumerClaim_example = 1
   \<and> consumerClaim_messagePump_pass (Inl ErrOffsetOutOfRange) consumerClaim_example =
       (Exit, consumerClaim_example\<lparr>claimed := 0\<rparr>, [CallConsume, StoreClaimed 2 0])
   \<and> filter is_GoRelease
         (snd (snd (consumerClaim_messagePump_pass (Inl ErrOffsetOutOfRange) consumerClaim_example)))
       = []"
  by (simp add: consumerClaim_messagePump_pass_def consumerClaim_example_def is_GoRelease_def)

text \<open>
  Claim C6, amended. In one pass of \<^verbatim>\<open>claim.messagePump\<close> on a claimed claim, the
  out-of-range error starts \<^verbatim>\<open>go c.Release()\<close> and ends the pump, whatever the broker
  would answer next; any other error sleeps one second and goes on with the next pass.
  In \<^verbatim>\<open>consumerClaim.messagePump\<close> the out-of-range error stores 0 in the flag and ends
  the pump; any other error sleeps one second and goes on. In both pumps the pass after
  another error leaves the whole claim as it was: no field changes, the flag and the
  channel included, and nothing is released.
\<close>

theorem messagePump_errors:
  "(claim_Claimed c \<longrightarrow>
      claim_messagePump_pass (Inl ErrOffsetOutOfRange) c
        = (Exit, c, [CallConsume, Go (partID c) GoRelease])
      \<and> claim_messagePump (Inl ErrOffsetOutOfRange # rest) c
        = (Exit, c, [CallConsume, Go (partID c) GoRelease]))
   \<and> (claim_Claimed c \<and> err \<noteq> ErrOffsetOutOfRange \<longrightarrow>
      claim_messagePump_pass (Inl err) c = (Continue, c, [CallConsume, Sleep 1000])
      \<and> claim_messagePump (Inl err # rest) c
        = (case claim_messagePump rest c of
             (st, c', evs) \<Rightarrow> (st, c', [CallConsume, Sleep 1000] @ evs)))
   \<and> (claimed cc = 1 \<longrightarrow>
      consumerClaim_messagePump_pass (Inl ErrOffsetOutOfRange) cc
        = (Exit, cc\<lparr>claimed := 0\<rparr>, [CallConsume, StoreClaimed (partID cc) 0])
      \<and> consumerClaim_messagePump (Inl ErrOffsetOutOfRange # rest') cc
        = (Exit, cc\<lparr>claimed := 0\<rparr>, [CallConsume, StoreClaimed (partID cc) 0]))
   \<and> (claimed cc = 1 \<and> err \<noteq> ErrOffsetOutOfRange \<longrightarrow>
      consumerClaim_messagePump_pass (Inl err) cc = (Continue, cc, [CallConsume, Sleep 1000])
      \<and> consumerClaim_messagePump (Inl err # rest') cc
        = (case consumerClaim_messagePump rest' cc of
             (st, c', evs) \<Rightarrow> (st, c', [CallConsume, Sleep 1000] @ evs)))"
  by (simp add: claim_messagePump_pass_def consumerClaim_messagePump_pass_def)

theorem messagePump_errors_witness:
  "claim_messagePump [Inl (ErrOther ''timeout''), Inl ErrOffsetOutOfRange, Inl (ErrOther ''late'')]
     claim_example
     = (Exit, claim_example, [CallConsume, Sleep 1000, CallConsume, Go 2 GoRelease])
   \<and> consumerClaim_messagePump
       [Inl (ErrOther ''timeout''), Inl ErrOffsetOutOfRange, Inl (ErrOther ''late'')]
       consumerClaim_example
     = (Exit, consumerClaim_example\<lparr>claimed := 0\<rparr>,
        [CallConsume, Sleep 1000, CallConsume, StoreClaimed 2 0])"
proof -
  have c: "claim_Claimed claim_example" and cc: "claimed consumerClaim_example = 1"
    and p: "partID claim_example = 2" "partID consumerClaim_example = 2"
    by (simp_all add: claim_Claimed_def claim_example_def consumerClaim_example_def)
  have ne: "ErrOther ''timeout'' \<noteq> ErrOffsetOutOfRange" by simp
  note a = messagePump_errors [of claim_example "[Inl (ErrOther ''late'')]" "ErrOther ''timeout''"
      consumerClaim_example "[Inl (ErrOther ''late'')]"]
  note b = messagePump_errors [of claim_example
      "[Inl ErrOffsetOutOfRange, Inl (ErrOther ''late'')]" "ErrOther ''timeout''"
      consumerClaim_example "[Inl ErrOffsetOutOfRange, Inl (ErrOther ''late'')]"]
  from a c p have 1: "claim_messagePump [Inl ErrOffsetOutOfRange, Inl (ErrOther ''late'')] claim_example
      = (Exit, claim_example, [CallConsume, Go 2 GoRelease])"
    by simp
  from a cc p have 2: "consumerClaim_messagePump [Inl ErrOffsetOutOfRange, Inl (ErrOther ''late'')]
      consumerClaim_example
      = (Exit, consumerClaim_example\<lparr>claimed := 0\<rparr>, [CallConsume, StoreClaimed 2 0])"
    by simp
  from b c ne have 3: "claim_messagePump
      [Inl (ErrOther ''timeout''), Inl ErrOffsetOutOfRange, Inl (ErrOther ''late'')] claim_example
      = (case claim_messagePump [Inl ErrOffsetOutOfRange, Inl (ErrOther ''late'')] claim_example of
           (st, c', evs) \<Rightarrow> (st, c', [CallConsume, Sleep 1000] @ evs))"
    by blast
  from b cc ne have 4: "consumerClaim_messagePump
      [Inl (ErrOther ''timeout''), Inl ErrOffsetOutOfRange, Inl (ErrOther ''late'')]
      consumerClaim_example
      = (case consumerClaim_messagePump [Inl ErrOffsetOutOfRange, Inl (ErrOther ''late'')]
                consumerClaim_example of
           (st, c', evs) \<Rightarrow> (st, c', [CallConsume, Sleep 1000] @ evs))"
    by blast
  show ?thesis unfolding 3 4 1 2 by simp
qed

subsection \<open>tryClaimPartition\<close>

text \<open>
  Claim C7 says that no heartbeat is sent for the partition in any of the five failing
  cases. When only the creation of the broker consumer fails, \<^verbatim>\<open>tryClaimPartition\<close> returns
  false and leaves the consumer as it was, but \<^verbatim>\<open>marshal.Heartbeat\<close> was called for the
  partition before (and succeeded): the source does nothing more there, as its comment
  says.
\<close>

theorem tryClaimPartition_heartbeat_sent:
  "Consumer_tryClaimPartition marshaler_no_broker 100 2 Consumer_empty =
     (False, Consumer_empty,
      [CallGetPartitionClaim ''t'' 2, CallGetPartitionOffsets ''t'' 2, CallClaimPartition ''t'' 2,
       CallHeartbeat ''t'' 2 0, CallKafkaConsumer ''t'' 2 0])
   \<and> filter (is_Heartbeat_of 2)
        (snd (snd (Consumer_tryClaimPartition marshaler_no_broker 100 2 Consumer_empty)))
       = [CallHeartbeat ''t'' 2 0]"
  by (simp add: Consumer_tryClaimPartition_def marshaler_no_broker_def marshaler_ok_def
        Consumer_empty_def new_consumerClaim_def is_Heartbeat_of_def Let_def)

lemma tryClaimPartition_result:
  "Consumer_tryClaimPartition m now p c =
     (let t = Consumer_topic c in
      if 0 <s GetPartitionClaim m t p then (False, c, [CallGetPartitionClaim t p])
      else case GetPartitionOffsets m t p of
        Inl err \<Rightarrow> (False, c, [CallGetPartitionClaim t p, CallGetPartitionOffsets t p])
      | Inr (oEarly, oLate, oCur) \<Rightarrow>
          if \<not> ClaimPartition m t p
          then (False, c, [CallGetPartitionClaim t p, CallGetPartitionOffsets t p,
                           CallClaimPartition t p])
          else if Heartbeat m t p (start_offset oEarly oCur) \<noteq> None
          then (False, c, [CallGetPartitionClaim t p, CallGetPartitionOffsets t p,
                           CallClaimPartition t p, CallHeartbeat t p (start_offset oEarly oCur)])
          else if kafkaConsumer m t (word_of_int p) (start_offset oEarly oCur) \<noteq> None
          then (False, c, [CallGetPartitionClaim t p, CallGetPartitionOffsets t p,
                           CallClaimPartition t p, CallHeartbeat t p (start_offset oEarly oCur),
                           CallKafkaConsumer t (word_of_int p) (start_offset oEarly oCur)])
          else (True,
                (case claims c of
                   None \<Rightarrow> c
                 | Some cs \<Rightarrow>
                     c\<lparr>claims := Some (AList.update p
                                        (stored_consumerClaim t p oEarly oLate oCur now) cs)\<rparr>),
                [CallGetPartitionClaim t p, CallGetPartitionOffsets t p,
                 CallClaimPartition t p, CallHeartbeat t p (start_offset oEarly oCur),
                 CallKafkaConsumer t (word_of_int p) (start_offset oEarly oCur),
                 Go p GoMessagePump]))"
  by (auto simp: Consumer_tryClaimPartition_def Let_def start_offset_def new_consumerClaim_def
        stored_consumerClaim_def split: sum.splits option.splits)

text \<open>
  Claim C7, amended. \<^verbatim>\<open>tryClaimPartition(p)\<close> returns true exactly when every step
  succeeds: the marshaler reports no heartbeat for the partition, the offsets are
  fetched, \<^verbatim>\<open>ClaimPartition\<close> wins, the heartbeat at the start offset is accepted and the
  broker consumer is created. When it returns false the consumer is unchanged (no claim
  inserted); each of the five failures makes it return false. When the marshaler reports
  a heartbeat, the fetch fails or \<^verbatim>\<open>ClaimPartition\<close> returns false, no heartbeat was sent
  for \<open>p\<close>; once \<^verbatim>\<open>ClaimPartition\<close> has succeeded exactly one heartbeat was sent for \<open>p\<close>,
  also when that heartbeat or the creation of the broker consumer then fails. When it
  returns true the new claim is stored under \<open>p\<close>, unless the map is nil.
\<close>

theorem tryClaimPartition_outcome:
  assumes "Consumer_tryClaimPartition m now p c = (ok, c', evs)"
  shows "ok = tryClaim_succeeds m (Consumer_topic c) p
    \<and> (\<not> ok \<longrightarrow> c' = c)
    \<and> (0 <s GetPartitionClaim m (Consumer_topic c) p
         \<or> (\<exists>err. GetPartitionOffsets m (Consumer_topic c) p = Inl err)
         \<or> \<not> ClaimPartition m (Consumer_topic c) p
         \<or> (\<exists>oEarly oLate oCur. GetPartitionOffsets m (Consumer_topic c) p = Inr (oEarly, oLate, oCur)
               \<and> Heartbeat m (Consumer_topic c) p (start_offset oEarly oCur) \<noteq> None)
         \<or> (\<exists>oEarly oLate oCur. GetPartitionOffsets m (Consumer_topic c) p = Inr (oEarly, oLate, oCur)
               \<and> kafkaConsumer m (Consumer_topic c) (word_of_int p) (start_offset oEarly oCur) \<noteq> None)
        \<longrightarrow> \<not> ok \<and> c' = c)
    \<and> (0 <s GetPartitionClaim m (Consumer_topic c) p
         \<or> (\<exists>err. GetPartitionOffsets m (Consumer_topic c) p = Inl err)
         \<or> \<not> ClaimPartition m (Consumer_topic c) p
        \<longrightarrow> filter (is_Heartbeat_of p) evs = [])
    \<and> (\<forall>oEarly oLate oCur.
          \<not> 0 <s GetPartitionClaim m (Consumer_topic c) p
          \<and> GetPartitionOffsets m (Consumer_topic c) p = Inr (oEarly, oLate, oCur)
          \<and> ClaimPartition m (Consumer_topic c) p
        \<longrightarrow> filter (is_Heartbeat_of p) evs
              = [CallHeartbeat (Consumer_topic c) p (start_offset oEarly oCur)])
    \<and> (ok \<longrightarrow>
         (\<exists>oEarly oLate oCur.
            GetPartitionOffsets m (Consumer_topic c) p = Inr (oEarly, oLate, oCur)
            \<and> c' = (case claims c of
                       None \<Rightarrow> c
                     | Some cs \<Rightarrow>
                         c\<lparr>claims := Some (AList.update p
                              (stored_consumerClaim (Consumer_topic c) p oEarly oLate oCur now) cs)\<rparr>)))"
  using assms unfolding tryClaimPartition_result tryClaim_succeeds_def Let_def
  by (auto simp: is_Heartbeat_of_def split: if_splits sum.splits)

theorem tryClaimPartition_outcome_witness:
  "Consumer_tryClaimPartition marshaler_ok 100 2 Consumer_empty =
     (True,
      Consumer_empty\<lparr>claims := Some [(2, stored_consumerClaim ''t'' 2 0 0 0 100)]\<rparr>,
      [CallGetPartitionClaim ''t'' 2, CallGetPartitionOffsets ''t'' 2, CallClaimPartition ''t'' 2,
       CallHeartbeat ''t'' 2 0, CallKafkaConsumer ''t'' 2 0, Go 2 GoMessagePump])
   \<and> tryClaim_succeeds marshaler_ok ''t'' 2
   \<and> Consumer_tryClaimPartition (marshaler_ok\<lparr>ClaimPartition := (\<lambda>t p. False)\<rparr>) 100 2
         Consumer_empty =
       (False, Consumer_empty,
        [CallGetPartitionClaim ''t'' 2, CallGetPartitionOffsets ''t'' 2, CallClaimPartition ''t'' 2])
   \<and> \<not> tryClaim_succeeds (marshaler_ok\<lparr>ClaimPartition := (\<lambda>t p. False)\<rparr>) ''t'' 2"
proof -
  have t: "Consumer_topic Consumer_empty = ''t''"
    by (simp add: Consumer_empty_def)
  have r1: "Consumer_tryClaimPartition marshaler_ok 100 2 Consumer_empty =
     (True,
      Consumer_empty\<lparr>claims := Some [(2, stored_consumerClaim ''t'' 2 0 0 0 100)]\<rparr>,
      [CallGetPartitionClaim ''t'' 2, CallGetPartitionOffsets ''t'' 2, CallClaimPartition ''t'' 2,
       CallHeartbeat ''t'' 2 0, CallKafkaConsumer ''t'' 2 0, Go 2 GoMessagePump])"
    by (simp add: tryClaimPartition_result marshaler_ok_def Consumer_empty_def start_offset_def Let_def)
  have r2: "Consumer_tryClaimPartition (marshaler_ok\<lparr>ClaimPartition := (\<lambda>t p. False)\<rparr>) 100 2
         Consumer_empty =
       (False, Consumer_empty,
        [CallGetPartitionClaim ''t'' 2, CallGetPartitionOffsets ''t'' 2, CallClaimPartition ''t'' 2])"
    by (simp add: tryClaimPartition_result marshaler_ok_def Consumer_empty_def Let_def)
  from tryClaimPartition_outcome [OF r1] have s1: "tryClaim_succeeds marshaler_ok ''t'' 2"
    unfolding t by blast
  from tryClaimPartition_outcome [OF r2]
  have s2: "\<not> tryClaim_succeeds (marshaler_ok\<lparr>ClaimPartition := (\<lambda>t p. False)\<rparr>) ''t'' 2"
    unfolding t by blast
  from r1 r2 s1 s2 show ?thesis by blast
qed

subsection \<open>updateOffsets\<close>

lemma refreshed_fields:
  "fst (refreshed m t e) = fst e"
  "offsetCurrent (snd (refreshed m t e)) = offsetCurrent (snd e)"
  "claimed (snd (refreshed m t e)) = claimed (snd e)"
  by (simp_all add: refreshed_def split: sum.splits)

lemma updateOffsets_range_result:
  "updateOffsets_range m t cs =
     (case dropWhile (fetch_ok m t) cs of
        [] \<Rightarrow> None
      | e # rest \<Rightarrow> (case GetPartitionOffsets m t (fst e) of Inl err \<Rightarrow> Some err | Inr r \<Rightarrow> None),
      map (refreshed m t) (takeWhile (fetch_ok m t) cs) @ dropWhile (fetch_ok m t) cs,
      map (\<lambda>e. CallGetPartitionOffsets t (fst e))
        (takeWhile (fetch_ok m t) cs @ take 1 (dropWhile (fetch_ok m t) cs)))"
proof (induction cs)
  case Nil
  show ?case by simp
next
  case (Cons e cs)
  obtain p claim where e: "e = (p, claim)" by (cases e)
  show ?case
  proof (cases "GetPartitionOffsets m t p")
    case (Inl err)
    with e show ?thesis by (simp add: fetch_ok_def)
  next
    case (Inr r)
    obtain oEarly oLate oCur where r: "r = (oEarly, oLate, oCur)" by (cases r)
    from Inr r e Cons.IH show ?thesis
      by (simp add: fetch_ok_def refreshed_def)
  qed
qed

lemma refresh_frame_prefix:
  "list_all2 (refresh_frame m t) (takeWhile (fetch_ok m t) cs)
     (map (refreshed m t) (takeWhile (fetch_ok m t) cs))"
proof -
  have "\<forall>e \<in> set (takeWhile (fetch_ok m t) cs). refresh_frame m t e (refreshed m t e)"
    by (auto simp: refresh_frame_def refreshed_fields dest: set_takeWhileD)
  then show ?thesis
    by (simp add: list_all2_conv_all_nth)
qed

lemma refresh_frame_refl: "list_all2 (refresh_frame m t) cs cs"
  by (simp add: list_all2_conv_all_nth refresh_frame_def)

lemma updateOffsets_range_frame:
  "list_all2 (refresh_frame m t) cs (fst (snd (updateOffsets_range m t cs)))"
proof -
  have "list_all2 (refresh_frame m t)
          (takeWhile (fetch_ok m t) cs @ dropWhile (fetch_ok m t) cs)
          (map (refreshed m t) (takeWhile (fetch_ok m t) cs) @ dropWhile (fetch_ok m t) cs)"
    by (rule list_all2_appendI [OF refresh_frame_prefix refresh_frame_refl])
  then show ?thesis
    by (simp add: updateOffsets_range_result)
qed

lemma updateOffsets_range_all:
  assumes "fst (updateOffsets_range m t cs) = None"
  shows "fst (snd (updateOffsets_range m t cs)) = map (refreshed m t) cs"
    and "\<forall>e \<in> set cs. fetch_ok m t e"
proof -
  have d: "dropWhile (fetch_ok m t) cs = []"
  proof (cases "dropWhile (fetch_ok m t) cs")
    case Nil
    then show ?thesis .
  next
    case (Cons e rest)
    then have "\<not> fetch_ok m t e"
      using hd_dropWhile [of "fetch_ok m t" cs] by simp
    with assms Cons show ?thesis
      by (simp add: updateOffsets_range_result fetch_ok_def split: sum.splits)
  qed
  then have t: "takeWhile (fetch_ok m t) cs = cs"
    using takeWhile_dropWhile_id [of "fetch_ok m t" cs] by simp
  show "fst (snd (updateOffsets_range m t cs)) = map (refreshed m t) cs"
    by (simp add: updateOffsets_range_result d t)
  from d show "\<forall>e \<in> set cs. fetch_ok m t e"
    by simp
qed

lemma updateOffsets_range_events:
  "filter is_fetch (snd (snd (updateOffsets_range m t cs))) = snd (snd (updateOffsets_range m t cs))"
  by (simp add: updateOffsets_range_result is_fetch_def filter_map o_def)

lemma go_rem_nonneg: "0 \<le> a \<Longrightarrow> 0 < b \<Longrightarrow> go_rem a b = a mod b"
  by (cases "a = 0") (simp_all add: go_rem_def)

lemma claim_updateOffsets_result:
  assumes "0 \<le> ctr"
  shows "claim_updateOffsets m ctr k =
     (case GetPartitionOffsets m (topic k) (partID k) of
        Inl err \<Rightarrow> Inr (Some err, k, [CallGetPartitionOffsets (topic k) (partID k)])
      | Inr (oEarly, oLate, oCur) \<Rightarrow>
          Inr (None,
               k\<lparr>offsetEarliest := oEarly, offsetLatest := oLate,
                 offsetLatestHistory := (offsetLatestHistory k)[nat (ctr mod 10) := oLate],
                 offsetCurrentHistory := (offsetCurrentHistory k)[nat (ctr mod 10) := offsetCurrent k]\<rparr>,
               [CallGetPartitionOffsets (topic k) (partID k)]))"
proof -
  have "go_rem ctr 10 = ctr mod 10" using assms by (simp add: go_rem_nonneg)
  moreover have "\<not> ctr mod 10 < 0" by simp
  ultimately show ?thesis
    by (simp add: claim_updateOffsets_def Let_def split: sum.splits)
qed

lemma claim_updateOffsets_frame:
  assumes "claim_updateOffsets m ctr k = Inr (r, k', evs)"
  shows "offsetCurrent k' = offsetCurrent k \<and> claimed k' = claimed k
         \<and> (r \<noteq> None \<longrightarrow> k' = k) \<and> filter is_fetch evs = evs"
  using assms
  by (auto simp: claim_updateOffsets_def Let_def is_fetch_def split: sum.splits if_splits)

text \<open>
  Claim C8 says that a refresh stores the fetched offsets in every claim, and leaves the
  claim alone whose fetch fails. \<^verbatim>\<open>Consumer.updateOffsets\<close> returns from its loop at the
  first failed fetch. With the claims of partitions 0, 2 and 3 visited in this order and
  the fetch failing for partition 2 only, the claim of partition 3 keeps its offsets
  \<open>(1, 12)\<close>: nothing is fetched for it, although its fetch would give \<open>(3, 50)\<close>.
\<close>

theorem updateOffsets_returns_at_failed_fetch:
  "GetPartitionOffsets (marshaler_fetch_fails_at 2) ''t'' 3 = Inr (3, 50, 9)
   \<and> map_option (\<lambda>k. (offsetEarliest k, offsetLatest k)) (lookup_claim Consumer_three 3)
       = Some (1, 12)
   \<and> map_option (\<lambda>k. (offsetEarliest k, offsetLatest k))
         (lookup_claim
            (fst (snd (Consumer_updateOffsets (marshaler_fetch_fails_at 2) Consumer_three))) 3)
       = Some (1, 12)
   \<and> snd (snd (Consumer_updateOffsets (marshaler_fetch_fails_at 2) Consumer_three))
       = [CallGetPartitionOffsets ''t'' 0, CallGetPartitionOffsets ''t'' 2]"
  by (simp add: Consumer_updateOffsets_def Consumer_three_def marshaler_fetch_fails_at_def
        marshaler_ok_def lookup_claim_def consumerClaim_example_def)

text \<open>
  Claim C8, amended. \<^verbatim>\<open>Consumer.updateOffsets\<close> keeps the map's keys and their order and
  changes no field of the consumer but the claims; every claim keeps its
  \<^verbatim>\<open>offsetCurrent\<close> and its flag, and is either left as it was or gets the fetched
  \<^verbatim>\<open>offsetEarliest\<close> and \<^verbatim>\<open>offsetLatest\<close>; a claim whose fetch fails is left as it was.
  The loop returns at the first failed fetch: the claims visited before it are
  refreshed, that claim and the ones after it are unchanged, and when no fetch fails
  every claim is refreshed. The events are exactly one fetch for each claim visited
  before the first failing one and one for the failing one, in the order of the visit:
  no claim after it is fetched, and nothing is released. The error returned is that of
  the first failed fetch. With a nil map nothing is fetched.
  \<^verbatim>\<open>claim.updateOffsets(ctr)\<close>, for a counter \<open>ctr \<ge> 0\<close> as its loop passes, returns the
  error and the unchanged claim when the fetch fails, and otherwise stores the two
  fetched offsets and the two samples at index \<open>ctr mod 10\<close>; whenever it returns,
  \<^verbatim>\<open>offsetCurrent\<close> and the flag are as before.
\<close>

theorem offset_refresh_frame:
  "(case Consumer_updateOffsets m c of
      (r, c', evs) \<Rightarrow>
        Consumer_topic c' = Consumer_topic c \<and> partitions c' = partitions c
        \<and> behavior c' = behavior c
        \<and> (claims c = None \<longrightarrow> claims c' = None \<and> r = None \<and> evs = [])
        \<and> (\<forall>cs. claims c = Some cs \<longrightarrow>
              (\<exists>cs'. claims c' = Some cs'
                 \<and> list_all2 (refresh_frame m (Consumer_topic c)) cs cs'
                 \<and> cs' = map (refreshed m (Consumer_topic c))
                              (takeWhile (fetch_ok m (Consumer_topic c)) cs)
                          @ dropWhile (fetch_ok m (Consumer_topic c)) cs
                 \<and> evs = map (\<lambda>e. CallGetPartitionOffsets (Consumer_topic c) (fst e))
                              (takeWhile (fetch_ok m (Consumer_topic c)) cs
                               @ take 1 (dropWhile (fetch_ok m (Consumer_topic c)) cs))
                 \<and> r = (case dropWhile (fetch_ok m (Consumer_topic c)) cs of
                            [] \<Rightarrow> None
                          | e # rest \<Rightarrow>
                              (case GetPartitionOffsets m (Consumer_topic c) (fst e) of
                                 Inl err \<Rightarrow> Some err
                               | Inr x \<Rightarrow> None))
                 \<and> (r = None \<longrightarrow>
                       cs' = map (refreshed m (Consumer_topic c)) cs
                       \<and> (\<forall>e \<in> set cs. fetch_ok m (Consumer_topic c) e))))
        \<and> filter is_fetch evs = evs)
   \<and> (0 \<le> ctr \<longrightarrow>
        claim_updateOffsets m ctr k =
          (case GetPartitionOffsets m (topic k) (partID k) of
             Inl err \<Rightarrow> Inr (Some err, k, [CallGetPartitionOffsets (topic k) (partID k)])
           | Inr (oEarly, oLate, oCur) \<Rightarrow>
               Inr (None,
                    k\<lparr>offsetEarliest := oEarly, offsetLatest := oLate,
                      offsetLatestHistory := (offsetLatestHistory k)[nat (ctr mod 10) := oLate],
                      offsetCurrentHistory :=
                        (offsetCurrentHistory k)[nat (ctr mod 10) := offsetCurrent k]\<rparr>,
                    [CallGetPartitionOffsets (topic k) (partID k)])))
   \<and> (\<forall>r k' evs. claim_updateOffsets m ctr k = Inr (r, k', evs) \<longrightarrow>
        offsetCurrent k' = offsetCurrent k \<and> claimed k' = claimed k
        \<and> (r \<noteq> None \<longrightarrow> k' = k) \<and> filter is_fetch evs = evs)"
proof -
  have A: "(case Consumer_updateOffsets m c of
      (r, c', evs) \<Rightarrow>
        Consumer_topic c' = Consumer_topic c \<and> partitions c' = partitions c
        \<and> behavior c' = behavior c
        \<and> (claims c = None \<longrightarrow> claims c' = None \<and> r = None \<and> evs = [])
        \<and> (\<forall>cs. claims c = Some cs \<longrightarrow>
              (\<exists>cs'. claims c' = Some cs'
                 \<and> list_all2 (refresh_frame m (Consumer_topic c)) cs cs'
                 \<and> cs' = map (refreshed m (Consumer_topic c))
                              (takeWhile (fetch_ok m (Consumer_topic c)) cs)
                          @ dropWhile (fetch_ok m (Consumer_topic c)) cs
                 \<and> evs = map (\<lambda>e. CallGetPartitionOffsets (Consumer_topic c) (fst e))
                              (takeWhile (fetch_ok m (Consumer_topic c)) cs
                               @ take 1 (dropWhile (fetch_ok m (Consumer_topic c)) cs))
                 \<and> r = (case dropWhile (fetch_ok m (Consumer_topic c)) cs of
                            [] \<Rightarrow> None
                          | e # rest \<Rightarrow>
                              (case GetPartitionOffsets m (Consumer_topic c) (fst e) of
                                 Inl err \<Rightarrow> Some err
                               | Inr x \<Rightarrow> None))
                 \<and> (r = None \<longrightarrow>
                       cs' = map (refreshed m (Consumer_topic c)) cs
                       \<and> (\<forall>e \<in> set cs. fetch_ok m (Consumer_topic c) e))))
        \<and> filter is_fetch evs = evs)"
  proof (cases "claims c")
    case None
    then show ?thesis by (simp add: Consumer_updateOffsets_def)
  next
    case (Some cs)
    obtain r cs' evs where u: "updateOffsets_range m (Consumer_topic c) cs = (r, cs', evs)"
      by (cases "updateOffsets_range m (Consumer_topic c) cs")
    have f: "list_all2 (refresh_frame m (Consumer_topic c)) cs cs'"
      using updateOffsets_range_frame [of m "Consumer_topic c" cs] u by simp
    have x: "cs' = map (refreshed m (Consumer_topic c))
                              (takeWhile (fetch_ok m (Consumer_topic c)) cs)
                          @ dropWhile (fetch_ok m (Consumer_topic c)) cs"
      using updateOffsets_range_result [of m "Consumer_topic c" cs] u by simp
    have y: "evs = map (\<lambda>e. CallGetPartitionOffsets (Consumer_topic c) (fst e))
                              (takeWhile (fetch_ok m (Consumer_topic c)) cs
                               @ take 1 (dropWhile (fetch_ok m (Consumer_topic c)) cs))"
      using updateOffsets_range_result [of m "Consumer_topic c" cs] u by simp
    have z: "r = (case dropWhile (fetch_ok m (Consumer_topic c)) cs of
                            [] \<Rightarrow> None
                          | e # rest \<Rightarrow>
                              (case GetPartitionOffsets m (Consumer_topic c) (fst e) of
                                 Inl err \<Rightarrow> Some err
                               | Inr x \<Rightarrow> None))"
      using updateOffsets_range_result [of m "Consumer_topic c" cs] u by simp
    have a: "r = None \<longrightarrow> cs' = map (refreshed m (Consumer_topic c)) cs
                       \<and> (\<forall>e \<in> set cs. fetch_ok m (Consumer_topic c) e)"
      using updateOffsets_range_all [of m "Consumer_topic c" cs] u by simp
    have e: "filter is_fetch evs = evs"
      using updateOffsets_range_events [of m "Consumer_topic c" cs] u by simp
    have cu: "Consumer_updateOffsets m c = (r, c\<lparr>claims := Some cs'\<rparr>, evs)"
      using Some u by (simp add: Consumer_updateOffsets_def)
    have p: "Consumer_topic (c\<lparr>claims := Some cs'\<rparr>) = Consumer_topic c"
      "partitions (c\<lparr>claims := Some cs'\<rparr>) = partitions c"
      "behavior (c\<lparr>claims := Some cs'\<rparr>) = behavior c"
      "claims (c\<lparr>claims := Some cs'\<rparr>) = Some cs'"
      by simp_all
    have n: "claims c \<noteq> None" using Some by simp
    have H: "\<forall>cs0. claims c = Some cs0 \<longrightarrow>
              (\<exists>cs''. claims (c\<lparr>claims := Some cs'\<rparr>) = Some cs''
                 \<and> list_all2 (refresh_frame m (Consumer_topic c)) cs0 cs''
                 \<and> cs'' = map (refreshed m (Consumer_topic c))
                              (takeWhile (fetch_ok m (Consumer_topic c)) cs0)
                          @ dropWhile (fetch_ok m (Consumer_topic c)) cs0
                 \<and> evs = map (\<lambda>e. CallGetPartitionOffsets (Consumer_topic c) (fst e))
                              (takeWhile (fetch_ok m (Consumer_topic c)) cs0
                               @ take 1 (dropWhile (fetch_ok m (Consumer_topic c)) cs0))
                 \<and> r = (case dropWhile (fetch_ok m (Consumer_topic c)) cs0 of
                            [] \<Rightarrow> None
                          | e # rest \<Rightarrow>
                              (case GetPartitionOffsets m (Consumer_topic c) (fst e) of
                                 Inl err \<Rightarrow> Some err
                               | Inr x \<Rightarrow> None))
                 \<and> (r = None \<longrightarrow>
                       cs'' = map (refreshed m (Consumer_topic c)) cs0
                       \<and> (\<forall>e \<in> set cs0. fetch_ok m (Consumer_topic c) e)))"
    proof (intro allI impI)
      fix cs0
      assume "claims c = Some cs0"
      with Some have q: "cs0 = cs" by simp
      from p(4) f x y z a
      show "\<exists>cs''. claims (c\<lparr>claims := Some cs'\<rparr>) = Some cs''
                 \<and> list_all2 (refresh_frame m (Consumer_topic c)) cs0 cs''
                 \<and> cs'' = map (refreshed m (Consumer_topic c))
                              (takeWhile (fetch_ok m (Consumer_topic c)) cs0)
                          @ dropWhile (fetch_ok m (Consumer_topic c)) cs0
                 \<and> evs = map (\<lambda>e. CallGetPartitionOffsets (Consumer_topic c) (fst e))
                              (takeWhile (fetch_ok m (Consumer_topic c)) cs0
                               @ take 1 (dropWhile (fetch_ok m (Consumer_topic c)) cs0))
                 \<and> r = (case dropWhile (fetch_ok m (Consumer_topic c)) cs0 of
                            [] \<Rightarrow> None
                          | e # rest \<Rightarrow>
                              (case GetPartitionOffsets m (Consumer_topic c) (fst e) of
                                 Inl err \<Rightarrow> Some err
                               | Inr x \<Rightarrow> None))
                 \<and> (r = None \<longrightarrow>
                       cs'' = map (refreshed m (Consumer_topic c)) cs0
                       \<and> (\<forall>e \<in> set cs0. fetch_ok m (Consumer_topic c) e))"
        unfolding q by (intro exI [of _ cs'] conjI)
    qed
    show ?thesis unfolding cu prod.case using p n H e by blast
  qed
  have B: "0 \<le> ctr \<longrightarrow>
        claim_updateOffsets m ctr k =
          (case GetPartitionOffsets m (topic k) (partID k) of
             Inl err \<Rightarrow> Inr (Some err, k, [CallGetPartitionOffsets (topic k) (partID k)])
           | Inr (oEarly, oLate, oCur) \<Rightarrow>
               Inr (None,
                    k\<lparr>offsetEarliest := oEarly, offsetLatest := oLate,
                      offsetLatestHistory := (offsetLatestHistory k)[nat (ctr mod 10) := oLate],
                      offsetCurrentHistory :=
                        (offsetCurrentHistory k)[nat (ctr mod 10) := offsetCurrent k]\<rparr>,
                    [CallGetPartitionOffsets (topic k) (partID k)]))"
    using claim_updateOffsets_result [of ctr m k] by blast
  have C: "\<forall>r k' evs. claim_updateOffsets m ctr k = Inr (r, k', evs) \<longrightarrow>
        offsetCurrent k' = offsetCurrent k \<and> claimed k' = claimed k
        \<and> (r \<noteq> None \<longrightarrow> k' = k) \<and> filter is_fetch evs = evs"
    using claim_updateOffsets_frame [of m ctr k] by blast
  from A B C show ?thesis by blast
qed

lemma Consumer_three_refresh:
  "Consumer_updateOffsets (marshaler_fetch_fails_at 2) Consumer_three =
     (Some (ErrOther ''fetch''),
      Consumer_three\<lparr>claims := Some
        [(0, consumerClaim_example\<lparr>partID := 0, offsetEarliest := 3, offsetLatest := 50\<rparr>),
         (2, consumerClaim_example),
         (3, consumerClaim_example\<lparr>partID := 3\<rparr>)]\<rparr>,
      [CallGetPartitionOffsets ''t'' 0, CallGetPartitionOffsets ''t'' 2])"
  by (simp add: Consumer_updateOffsets_def Consumer_three_def marshaler_fetch_fails_at_def
        marshaler_ok_def)

theorem offset_refresh_frame_witness:
  "Consumer_updateOffsets (marshaler_fetch_fails_at 2) Consumer_three =
     (Some (ErrOther ''fetch''),
      Consumer_three\<lparr>claims := Some
        [(0, consumerClaim_example\<lparr>partID := 0, offsetEarliest := 3, offsetLatest := 50\<rparr>),
         (2, consumerClaim_example),
         (3, consumerClaim_example\<lparr>partID := 3\<rparr>)]\<rparr>,
      [CallGetPartitionOffsets ''t'' 0, CallGetPartitionOffsets ''t'' 2])
   \<and> list_all2 (refresh_frame (marshaler_fetch_fails_at 2) ''t'')
        [(0, consumerClaim_example\<lparr>partID := 0\<rparr>), (2, consumerClaim_example),
         (3, consumerClaim_example\<lparr>partID := 3\<rparr>)]
        [(0, consumerClaim_example\<lparr>partID := 0, offsetEarliest := 3, offsetLatest := 50\<rparr>),
         (2, consumerClaim_example),
         (3, consumerClaim_example\<lparr>partID := 3\<rparr>)]
   \<and> claim_updateOffsets (marshaler_fetch_fails_at 2) 13 claim_example =
       Inr (Some (ErrOther ''fetch''), claim_example, [CallGetPartitionOffsets ''t'' 2])
   \<and> claim_updateOffsets (marshaler_fetch_fails_at 0) 13 claim_example =
       Inr (None,
            claim_example\<lparr>offsetEarliest := 3, offsetLatest := 50,
              offsetLatestHistory := [0, 0, 0, 50, 0, 0, 0, 0, 0, 0],
              offsetCurrentHistory := [0, 0, 0, 7, 0, 0, 0, 0, 0, 0]\<rparr>,
            [CallGetPartitionOffsets ''t'' 2])"
proof -
  note w = offset_refresh_frame [where m = "marshaler_fetch_fails_at 2" and c = Consumer_three
      and ctr = 13 and k = claim_example]
  note v = offset_refresh_frame [where m = "marshaler_fetch_fails_at 0" and c = Consumer_three
      and ctr = 13 and k = claim_example]
  have t: "Consumer_topic Consumer_three = ''t''"
    and cs: "claims Consumer_three = Some [(0, consumerClaim_example\<lparr>partID := 0\<rparr>),
         (2, consumerClaim_example), (3, consumerClaim_example\<lparr>partID := 3\<rparr>)]"
    by (simp_all add: Consumer_three_def)
  from w have 1: "list_all2 (refresh_frame (marshaler_fetch_fails_at 2) ''t'')
        [(0, consumerClaim_example\<lparr>partID := 0\<rparr>), (2, consumerClaim_example),
         (3, consumerClaim_example\<lparr>partID := 3\<rparr>)]
        [(0, consumerClaim_example\<lparr>partID := 0, offsetEarliest := 3, offsetLatest := 50\<rparr>),
         (2, consumerClaim_example),
         (3, consumerClaim_example\<lparr>partID := 3\<rparr>)]"
    unfolding Consumer_three_refresh t by (simp add: cs)
  from w have 2: "claim_updateOffsets (marshaler_fetch_fails_at 2) 13 claim_example =
       Inr (Some (ErrOther ''fetch''), claim_example, [CallGetPartitionOffsets ''t'' 2])"
    by (simp add: marshaler_fetch_fails_at_def claim_example_def)
  from v have 3: "claim_updateOffsets (marshaler_fetch_fails_at 0) 13 claim_example =
       Inr (None,
            claim_example\<lparr>offsetEarliest := 3, offsetLatest := 50,
              offsetLatestHistory := [0, 0, 0, 50, 0, 0, 0, 0, 0, 0],
              offsetCurrentHistory := [0, 0, 0, 7, 0, 0, 0, 0, 0, 0]\<rparr>,
            [CallGetPartitionOffsets ''t'' 2])"
    by (simp add: marshaler_fetch_fails_at_def claim_example_def eval_nat_numeral)
  from Consumer_three_refresh 1 2 3 show ?thesis by blast
qed

subsection \<open>claimPartitions\<close>

declare claimPartitions_loop.simps [simp del]

lemma claimPartitions_loop_unfold:
  "claimPartitions_loop m clock offset i c =
     (if i < partitions c then
        if lookup_claim c (visited c offset i) \<noteq> None
        then claimPartitions_loop m clock offset (i + 1) c
        else
          (case Consumer_tryClaimPartition m (clock (visited c offset i)) (visited c offset i) c of
             (ok, c', evs) \<Rightarrow>
               if ok \<and> behavior c' = CbBalanced
               then (c', evs @ [TryClaimPartition (visited c offset i) True])
               else (case claimPartitions_loop m clock offset (i + 1) c' of
                       (c'', evs') \<Rightarrow>
                         (c'', evs @ TryClaimPartition (visited c offset i) ok # evs')))
      else (c, []))"
  by (subst claimPartitions_loop.simps)
     (auto simp: visited_def Let_def split: prod.splits)

lemma tryClaimPartition_fields:
  assumes "Consumer_tryClaimPartition m now p c = (ok, c', evs)"
  shows "behavior c' = behavior c" "partitions c' = partitions c"
    "Consumer_topic c' = Consumer_topic c" "(claims c' = None) = (claims c = None)"
  using assms unfolding tryClaimPartition_result Let_def
  by (auto split: if_splits sum.splits option.splits)

lemma tryClaimPartition_lookup:
  assumes "Consumer_tryClaimPartition m now p c = (ok, c', evs)"
  shows "(lookup_claim c' q \<noteq> None)
           = (lookup_claim c q \<noteq> None \<or> (ok \<and> q = p \<and> claims c \<noteq> None))"
  using assms unfolding tryClaimPartition_result Let_def
  by (auto simp: lookup_claim_def update_conv' split: if_splits sum.splits option.splits)

lemma tryClaimPartition_no_try:
  assumes "Consumer_tryClaimPartition m now p c = (ok, c', evs)"
  shows "filter is_try evs = []"
  using assms unfolding tryClaimPartition_result Let_def
  by (auto simp: is_try_def split: if_splits sum.splits option.splits)

lemma visited_unchanged:
  "partitions c' = partitions c \<Longrightarrow> visited c' offset j = visited c offset j"
  by (simp add: visited_def)

text \<open>An induction rule that follows the four ways one pass of the loop can go.\<close>

lemma claimPartitions_loop_cases:
  assumes run: "claimPartitions_loop m clock offset i c = (c', evs)"
    and finished: "\<And>i c. \<not> i < partitions c \<Longrightarrow> P i c c []"
    and skip: "\<And>i c c' evs. i < partitions c
        \<Longrightarrow> lookup_claim c (visited c offset i) \<noteq> None
        \<Longrightarrow> claimPartitions_loop m clock offset (i + 1) c = (c', evs)
        \<Longrightarrow> P (i + 1) c c' evs \<Longrightarrow> P i c c' evs"
    and stop: "\<And>i c c1 ev1. i < partitions c
        \<Longrightarrow> lookup_claim c (visited c offset i) = None
        \<Longrightarrow> Consumer_tryClaimPartition m (clock (visited c offset i)) (visited c offset i) c
              = (True, c1, ev1)
        \<Longrightarrow> behavior c = CbBalanced
        \<Longrightarrow> P i c c1 (ev1 @ [TryClaimPartition (visited c offset i) True])"
    and continue: "\<And>i c ok c1 ev1 c' evs. i < partitions c
        \<Longrightarrow> lookup_claim c (visited c offset i) = None
        \<Longrightarrow> Consumer_tryClaimPartition m (clock (visited c offset i)) (visited c offset i) c
              = (ok, c1, ev1)
        \<Longrightarrow> \<not> (ok \<and> behavior c = CbBalanced)
        \<Longrightarrow> claimPartitions_loop m clock offset (i + 1) c1 = (c', evs)
        \<Longrightarrow> P (i + 1) c1 c' evs
        \<Longrightarrow> P i c c' (ev1 @ TryClaimPartition (visited c offset i) ok # evs)"
  shows "P i c c' evs"
  using run
proof (induction "nat (partitions c - i)" arbitrary: i c c' evs)
  case 0
  then have "\<not> i < partitions c" by simp
  with "0.prems" finished [of i c] show ?case
    by (simp add: claimPartitions_loop_unfold)
next
  case (Suc n)
  then have lt: "i < partitions c" by linarith
  show ?case
  proof (cases "lookup_claim c (visited c offset i) \<noteq> None")
    case True
    with lt Suc.prems have r: "claimPartitions_loop m clock offset (i + 1) c = (c', evs)"
      by (simp add: claimPartitions_loop_unfold [of m clock offset i c])
    have "n = nat (partitions c - (i + 1))" using Suc.hyps(2) by linarith
    from Suc.hyps(1) [OF this r] have "P (i + 1) c c' evs" .
    with lt True r show ?thesis by (rule skip)
  next
    case False
    then have free: "lookup_claim c (visited c offset i) = None" by simp
    obtain ok c1 ev1 where
      t: "Consumer_tryClaimPartition m (clock (visited c offset i)) (visited c offset i) c
            = (ok, c1, ev1)"
      by (cases "Consumer_tryClaimPartition m (clock (visited c offset i)) (visited c offset i) c")
    note f = tryClaimPartition_fields [OF t]
    show ?thesis
    proof (cases "ok \<and> behavior c = CbBalanced")
      case True
      with lt free t f Suc.prems
      have "(c', evs) = (c1, ev1 @ [TryClaimPartition (visited c offset i) True])"
        by (simp add: claimPartitions_loop_unfold [of m clock offset i c])
      moreover from True t have "Consumer_tryClaimPartition m (clock (visited c offset i))
          (visited c offset i) c = (True, c1, ev1)" by simp
      ultimately show ?thesis
        using stop [OF lt free _ conjunct2 [OF True]] by simp
    next
      case False
      obtain c2 ev2 where r: "claimPartitions_loop m clock offset (i + 1) c1 = (c2, ev2)"
        by (cases "claimPartitions_loop m clock offset (i + 1) c1")
      from lt free t f False r Suc.prems
      have e: "(c', evs) = (c2, ev1 @ TryClaimPartition (visited c offset i) ok # ev2)"
        by (auto simp: claimPartitions_loop_unfold [of m clock offset i c])
      have "n = nat (partitions c1 - (i + 1))" using Suc.hyps(2) f(2) by linarith
      from Suc.hyps(1) [OF this r] have "P (i + 1) c1 c2 ev2" .
      from continue [OF lt free t False r this] e show ?thesis by simp
    qed
  qed
qed

lemma claimPartitions_loop_fields:
  assumes "claimPartitions_loop m clock offset i c = (c', evs)"
  shows "behavior c' = behavior c \<and> partitions c' = partitions c
         \<and> Consumer_topic c' = Consumer_topic c \<and> (claims c' = None) = (claims c = None)"
  using assms
proof (rule claimPartitions_loop_cases)
  fix i :: int and c c1 c' :: Consumer and ok :: bool and ev1 evs :: "event list"
  assume t: "Consumer_tryClaimPartition m (clock (visited c offset i)) (visited c offset i) c
              = (ok, c1, ev1)"
    and "behavior c' = behavior c1 \<and> partitions c' = partitions c1
         \<and> Consumer_topic c' = Consumer_topic c1 \<and> (claims c' = None) = (claims c1 = None)"
  then show "behavior c' = behavior c \<and> partitions c' = partitions c
         \<and> Consumer_topic c' = Consumer_topic c \<and> (claims c' = None) = (claims c = None)"
    using tryClaimPartition_fields [OF t] by simp
next
  fix i :: int and c c1 :: Consumer and ev1 :: "event list"
  assume t: "Consumer_tryClaimPartition m (clock (visited c offset i)) (visited c offset i) c
              = (True, c1, ev1)"
  then show "behavior c1 = behavior c \<and> partitions c1 = partitions c
         \<and> Consumer_topic c1 = Consumer_topic c \<and> (claims c1 = None) = (claims c = None)"
    using tryClaimPartition_fields [OF t] by simp
qed simp_all

lemma no_try_notin: "filter is_try evs = [] \<Longrightarrow> TryClaimPartition q b \<notin> set evs"
  by (auto simp: filter_empty_conv is_try_def)

lemma no_try_no_success: "filter is_try evs = [] \<Longrightarrow> filter is_success evs = []"
  by (auto simp: filter_empty_conv is_try_def is_success_def split: event.splits)

lemma claimPartitions_loop_lookup:
  assumes "claimPartitions_loop m clock offset i c = (c', evs)"
  shows "\<forall>q. (lookup_claim c' q \<noteq> None)
           = (lookup_claim c q \<noteq> None
              \<or> (claims c \<noteq> None \<and> TryClaimPartition q True \<in> set evs))"
  using assms
proof (rule claimPartitions_loop_cases)
  fix i :: int and c c1 :: Consumer and ev1 :: "event list"
  assume t: "Consumer_tryClaimPartition m (clock (visited c offset i)) (visited c offset i) c
              = (True, c1, ev1)"
  show "\<forall>q. (lookup_claim c1 q \<noteq> None)
           = (lookup_claim c q \<noteq> None
              \<or> (claims c \<noteq> None
                  \<and> TryClaimPartition q True
                        \<in> set (ev1 @ [TryClaimPartition (visited c offset i) True])))"
    using tryClaimPartition_lookup [OF t] no_try_notin [OF tryClaimPartition_no_try [OF t]]
    by auto
next
  fix i :: int and c c1 c' :: Consumer and ok :: bool and ev1 evs :: "event list"
  assume t: "Consumer_tryClaimPartition m (clock (visited c offset i)) (visited c offset i) c
              = (ok, c1, ev1)"
    and ih: "\<forall>q. (lookup_claim c' q \<noteq> None)
           = (lookup_claim c1 q \<noteq> None
              \<or> (claims c1 \<noteq> None \<and> TryClaimPartition q True \<in> set evs))"
  show "\<forall>q. (lookup_claim c' q \<noteq> None)
           = (lookup_claim c q \<noteq> None
              \<or> (claims c \<noteq> None
                  \<and> TryClaimPartition q True
                        \<in> set (ev1 @ TryClaimPartition (visited c offset i) ok # evs)))"
    using ih tryClaimPartition_lookup [OF t] no_try_notin [OF tryClaimPartition_no_try [OF t]]
      tryClaimPartition_fields(4) [OF t]
    by auto
qed simp_all

lemma claimPartitions_loop_tried_free:
  assumes "claimPartitions_loop m clock offset i c = (c', evs)"
  shows "\<forall>q b. TryClaimPartition q b \<in> set evs \<longrightarrow>
           lookup_claim c q = None
           \<and> (\<exists>j. i \<le> j \<and> j < partitions c \<and> q = visited c offset j)"
  using assms
proof (rule claimPartitions_loop_cases)
  fix i :: int and c c' :: Consumer and evs :: "event list"
  assume "\<forall>q b. TryClaimPartition q b \<in> set evs \<longrightarrow>
           lookup_claim c q = None
           \<and> (\<exists>j. i + 1 \<le> j \<and> j < partitions c \<and> q = visited c offset j)"
  then show "\<forall>q b. TryClaimPartition q b \<in> set evs \<longrightarrow>
           lookup_claim c q = None
           \<and> (\<exists>j. i \<le> j \<and> j < partitions c \<and> q = visited c offset j)"
    by (elim all_forward imp_forward conj_forward ex_forward) simp_all
next
  fix i :: int and c c1 :: Consumer and ev1 :: "event list"
  assume lt: "i < partitions c" and free: "lookup_claim c (visited c offset i) = None"
    and t: "Consumer_tryClaimPartition m (clock (visited c offset i)) (visited c offset i) c
              = (True, c1, ev1)"
  show "\<forall>q b. TryClaimPartition q b \<in> set (ev1 @ [TryClaimPartition (visited c offset i) True])
          \<longrightarrow> lookup_claim c q = None
           \<and> (\<exists>j. i \<le> j \<and> j < partitions c \<and> q = visited c offset j)"
  proof (intro allI impI)
    fix q b
    assume "TryClaimPartition q b \<in> set (ev1 @ [TryClaimPartition (visited c offset i) True])"
    then have "q = visited c offset i"
      using no_try_notin [OF tryClaimPartition_no_try [OF t], of q b] by simp
    with lt free show "lookup_claim c q = None
           \<and> (\<exists>j. i \<le> j \<and> j < partitions c \<and> q = visited c offset j)"
      by blast
  qed
next
  fix i :: int and c c1 c' :: Consumer and ok :: bool and ev1 evs :: "event list"
  assume lt: "i < partitions c" and free: "lookup_claim c (visited c offset i) = None"
    and t: "Consumer_tryClaimPartition m (clock (visited c offset i)) (visited c offset i) c
              = (ok, c1, ev1)"
    and ih: "\<forall>q b. TryClaimPartition q b \<in> set evs \<longrightarrow>
           lookup_claim c1 q = None
           \<and> (\<exists>j. i + 1 \<le> j \<and> j < partitions c1 \<and> q = visited c1 offset j)"
  note f = tryClaimPartition_fields [OF t]
  show "\<forall>q b. TryClaimPartition q b
                 \<in> set (ev1 @ TryClaimPartition (visited c offset i) ok # evs)
          \<longrightarrow> lookup_claim c q = None
           \<and> (\<exists>j. i \<le> j \<and> j < partitions c \<and> q = visited c offset j)"
  proof (intro allI impI)
    fix q b
    assume "TryClaimPartition q b \<in> set (ev1 @ TryClaimPartition (visited c offset i) ok # evs)"
    then consider "q = visited c offset i" | "TryClaimPartition q b \<in> set evs"
      using no_try_notin [OF tryClaimPartition_no_try [OF t], of q b] by auto
    then show "lookup_claim c q = None
           \<and> (\<exists>j. i \<le> j \<and> j < partitions c \<and> q = visited c offset j)"
    proof cases
      case 1
      with lt free show ?thesis by blast
    next
      case 2
      with ih obtain j where j: "lookup_claim c1 q = None" "i + 1 \<le> j" "j < partitions c1"
        "q = visited c1 offset j" by blast
      from j(1) tryClaimPartition_lookup [OF t, of q] have "lookup_claim c q = None"
        by simp
      moreover have "i \<le> j" "j < partitions c" "q = visited c offset j"
        using j f(2) by (simp_all add: visited_def)
      ultimately show ?thesis by blast
    qed
  qed
qed simp_all

lemma claimPartitions_loop_balanced:
  assumes "claimPartitions_loop m clock offset i c = (c', evs)"
  shows "behavior c = CbBalanced \<longrightarrow>
           filter is_success evs = []
           \<or> (\<exists>q. filter is_success evs = [TryClaimPartition q True]
                  \<and> last evs = TryClaimPartition q True)"
  using assms
proof (rule claimPartitions_loop_cases)
  fix i :: int and c c1 :: Consumer and ev1 :: "event list"
  assume t: "Consumer_tryClaimPartition m (clock (visited c offset i)) (visited c offset i) c
              = (True, c1, ev1)"
  have "filter is_success ev1 = []"
    by (rule no_try_no_success [OF tryClaimPartition_no_try [OF t]])
  then show "behavior c = CbBalanced \<longrightarrow>
           filter is_success (ev1 @ [TryClaimPartition (visited c offset i) True]) = []
           \<or> (\<exists>q. filter is_success (ev1 @ [TryClaimPartition (visited c offset i) True])
                      = [TryClaimPartition q True]
                  \<and> last (ev1 @ [TryClaimPartition (visited c offset i) True])
                      = TryClaimPartition q True)"
    by (simp add: is_success_def)
next
  fix i :: int and c c1 c' :: Consumer and ok :: bool and ev1 evs :: "event list"
  assume t: "Consumer_tryClaimPartition m (clock (visited c offset i)) (visited c offset i) c
              = (ok, c1, ev1)"
    and nb: "\<not> (ok \<and> behavior c = CbBalanced)"
    and ih: "behavior c1 = CbBalanced \<longrightarrow>
           filter is_success evs = []
           \<or> (\<exists>q. filter is_success evs = [TryClaimPartition q True]
                  \<and> last evs = TryClaimPartition q True)"
  have e1: "filter is_success ev1 = []"
    by (rule no_try_no_success [OF tryClaimPartition_no_try [OF t]])
  note f = tryClaimPartition_fields [OF t]
  show "behavior c = CbBalanced \<longrightarrow>
           filter is_success (ev1 @ TryClaimPartition (visited c offset i) ok # evs) = []
           \<or> (\<exists>q. filter is_success (ev1 @ TryClaimPartition (visited c offset i) ok # evs)
                      = [TryClaimPartition q True]
                  \<and> last (ev1 @ TryClaimPartition (visited c offset i) ok # evs)
                      = TryClaimPartition q True)"
  proof
    assume b: "behavior c = CbBalanced"
    with nb have nok: "\<not> ok" by simp
    then have s: "filter is_success (ev1 @ TryClaimPartition (visited c offset i) ok # evs)
                    = filter is_success evs"
      using e1 by (simp add: is_success_def)
    from ih b f(1) consider "filter is_success evs = []"
      | q where "filter is_success evs = [TryClaimPartition q True]"
          "last evs = TryClaimPartition q True"
      by auto
    then show "filter is_success (ev1 @ TryClaimPartition (visited c offset i) ok # evs) = []
           \<or> (\<exists>q. filter is_success (ev1 @ TryClaimPartition (visited c offset i) ok # evs)
                      = [TryClaimPartition q True]
                  \<and> last (ev1 @ TryClaimPartition (visited c offset i) ok # evs)
                      = TryClaimPartition q True)"
    proof cases
      case 1
      with s show ?thesis by simp
    next
      case 2
      then have "evs \<noteq> []" by auto
      then have "last (ev1 @ TryClaimPartition (visited c offset i) ok # evs) = last evs"
        by simp
      with 2 s show ?thesis by simp
    qed
  qed
qed simp_all

lemma claimPartitions_loop_aggressive:
  assumes "claimPartitions_loop m clock offset i c = (c', evs)"
  shows "behavior c \<noteq> CbBalanced \<longrightarrow>
           (\<forall>j. i \<le> j \<and> j < partitions c \<longrightarrow>
              lookup_claim c (visited c offset j) \<noteq> None
              \<or> (\<exists>b. TryClaimPartition (visited c offset j) b \<in> set evs))"
  using assms
proof (rule claimPartitions_loop_cases)
  fix i :: int and c :: Consumer
  assume "\<not> i < partitions c"
  then show "behavior c \<noteq> CbBalanced \<longrightarrow>
           (\<forall>j. i \<le> j \<and> j < partitions c \<longrightarrow>
              lookup_claim c (visited c offset j) \<noteq> None
              \<or> (\<exists>b. TryClaimPartition (visited c offset j) b \<in> set []))"
    by (intro impI allI) linarith
next
  fix i :: int and c c' :: Consumer and evs :: "event list"
  assume here: "lookup_claim c (visited c offset i) \<noteq> None"
    and ih: "behavior c \<noteq> CbBalanced \<longrightarrow>
           (\<forall>j. i + 1 \<le> j \<and> j < partitions c \<longrightarrow>
              lookup_claim c (visited c offset j) \<noteq> None
              \<or> (\<exists>b. TryClaimPartition (visited c offset j) b \<in> set evs))"
  show "behavior c \<noteq> CbBalanced \<longrightarrow>
           (\<forall>j. i \<le> j \<and> j < partitions c \<longrightarrow>
              lookup_claim c (visited c offset j) \<noteq> None
              \<or> (\<exists>b. TryClaimPartition (visited c offset j) b \<in> set evs))"
  proof (intro impI allI)
    fix j
    assume b: "behavior c \<noteq> CbBalanced" and j: "i \<le> j \<and> j < partitions c"
    show "lookup_claim c (visited c offset j) \<noteq> None
              \<or> (\<exists>b. TryClaimPartition (visited c offset j) b \<in> set evs)"
    proof (cases "j = i")
      case True
      with here show ?thesis by simp
    next
      case False
      with j have "i + 1 \<le> j \<and> j < partitions c" by simp
      with ih b show ?thesis by blast
    qed
  qed
next
  fix i :: int and c c1 :: Consumer and ev1 :: "event list"
  assume "behavior c = CbBalanced"
  then show "behavior c \<noteq> CbBalanced \<longrightarrow>
           (\<forall>j. i \<le> j \<and> j < partitions c \<longrightarrow>
              lookup_claim c (visited c offset j) \<noteq> None
              \<or> (\<exists>b. TryClaimPartition (visited c offset j) b
                       \<in> set (ev1 @ [TryClaimPartition (visited c offset i) True])))"
    by simp
next
  fix i :: int and c c1 c' :: Consumer and ok :: bool and ev1 evs :: "event list"
  assume t: "Consumer_tryClaimPartition m (clock (visited c offset i)) (visited c offset i) c
              = (ok, c1, ev1)"
    and ih: "behavior c1 \<noteq> CbBalanced \<longrightarrow>
           (\<forall>j. i + 1 \<le> j \<and> j < partitions c1 \<longrightarrow>
              lookup_claim c1 (visited c1 offset j) \<noteq> None
              \<or> (\<exists>b. TryClaimPartition (visited c1 offset j) b \<in> set evs))"
  note f = tryClaimPartition_fields [OF t]
  have v: "visited c1 offset j = visited c offset j" for j
    using f(2) by (simp add: visited_def)
  show "behavior c \<noteq> CbBalanced \<longrightarrow>
           (\<forall>j. i \<le> j \<and> j < partitions c \<longrightarrow>
              lookup_claim c (visited c offset j) \<noteq> None
              \<or> (\<exists>b. TryClaimPartition (visited c offset j) b
                       \<in> set (ev1 @ TryClaimPartition (visited c offset i) ok # evs)))"
  proof (intro impI allI)
    fix j
    assume b: "behavior c \<noteq> CbBalanced" and j: "i \<le> j \<and> j < partitions c"
    show "lookup_claim c (visited c offset j) \<noteq> None
              \<or> (\<exists>b. TryClaimPartition (visited c offset j) b
                       \<in> set (ev1 @ TryClaimPartition (visited c offset i) ok # evs))"
    proof (cases "j = i")
      case True
      then show ?thesis by auto
    next
      case False
      with j f(2) have "i + 1 \<le> j \<and> j < partitions c1" by simp
      with ih b f(1) have "lookup_claim c1 (visited c offset j) \<noteq> None
              \<or> (\<exists>b. TryClaimPartition (visited c offset j) b \<in> set evs)"
        unfolding v by simp
      then show ?thesis
      proof
        assume "lookup_claim c1 (visited c offset j) \<noteq> None"
        with tryClaimPartition_lookup [OF t, of "visited c offset j"]
        have "lookup_claim c (visited c offset j) \<noteq> None
                \<or> visited c offset j = visited c offset i"
          by blast
        then show ?thesis by auto
      next
        assume "\<exists>b. TryClaimPartition (visited c offset j) b \<in> set evs"
        then show ?thesis by auto
      qed
    qed
  qed
qed

lemma wrap64_id: "- (2 ^ 63) \<le> k \<Longrightarrow> k < 2 ^ 63 \<Longrightarrow> wrap64 k = k"
  by (simp add: wrap64_def signed_take_bit_int_eq_self)

lemma visited_mod:
  assumes "0 \<le> offset" "offset < partitions c" "partitions c \<le> 2 ^ 62" "0 \<le> j" "j < partitions c"
  shows "visited c offset j = (j + offset) mod partitions c"
proof -
  have p: "(2::int) ^ 63 = 2 * 2 ^ 62" by simp
  have "j + offset < 2 ^ 63" unfolding p using assms by linarith
  moreover have "- (2 ^ 63) \<le> j + offset" using assms by simp
  ultimately have "wrap64 (j + offset) = j + offset" by (simp add: wrap64_id)
  moreover have "go_rem (j + offset) (partitions c) = (j + offset) mod partitions c"
    using assms by (simp add: go_rem_nonneg)
  ultimately show ?thesis by (simp add: visited_def)
qed

lemma visited_onto:
  assumes "0 \<le> offset" "offset < partitions c" "partitions c \<le> 2 ^ 62" "0 \<le> p" "p < partitions c"
  shows "\<exists>j. 0 \<le> j \<and> j < partitions c \<and> visited c offset j = p"
proof -
  let ?n = "partitions c"
  let ?j = "(p - offset) mod ?n"
  have n: "0 < ?n" using assms by linarith
  then have j: "0 \<le> ?j" "?j < ?n" by simp_all
  have "visited c offset ?j = (?j + offset) mod ?n"
    using assms(1-3) j by (rule visited_mod)
  also have "\<dots> = p mod ?n" by (simp add: mod_add_left_eq)
  also have "\<dots> = p" using assms by simp
  finally show ?thesis using j by blast
qed

text \<open>
  Claim C9. One sweep of \<^verbatim>\<open>claimPartitions\<close> over \<open>partitions c\<close> partitions (at most
  \<open>2^62\<close>, so that \<^verbatim>\<open>i + offset\<close> does not wrap), starting at the random \<open>offset\<close> in
  \<open>[0, partitions c)\<close>. In Balanced mode the sweep stops after the first successful
  \<^verbatim>\<open>tryClaimPartition\<close>: at most one call succeeds, a successful call is the last event of
  the sweep, and at most one partition is in the map afterwards that was not before. In
  every other mode (Aggressive) \<^verbatim>\<open>tryClaimPartition\<close> is called for every partition that
  is not in the map at the start. In both modes it is called only for partitions in
  range that are not in the map, and the partitions in the map afterwards are those
  before and those whose call succeeded.
\<close>

theorem claimPartitions_modes:
  assumes run: "Consumer_claimPartitions m clock offset c = Inr (c', evs)"
    and off: "0 \<le> offset" "offset < partitions c"
    and small: "partitions c \<le> 2 ^ 62"
  shows "(behavior c = CbBalanced \<longrightarrow>
            length (filter is_success evs) \<le> 1
            \<and> (\<forall>q. TryClaimPartition q True \<in> set evs \<longrightarrow> last evs = TryClaimPartition q True)
            \<and> (\<forall>q q'. lookup_claim c' q \<noteq> None \<and> lookup_claim c q = None
                      \<and> lookup_claim c' q' \<noteq> None \<and> lookup_claim c q' = None
                    \<longrightarrow> q = q'))
       \<and> (behavior c \<noteq> CbBalanced \<longrightarrow>
            (\<forall>p. 0 \<le> p \<and> p < partitions c \<and> lookup_claim c p = None
                 \<longrightarrow> (\<exists>b. TryClaimPartition p b \<in> set evs)))
       \<and> (\<forall>q b. TryClaimPartition q b \<in> set evs
              \<longrightarrow> lookup_claim c q = None \<and> 0 \<le> q \<and> q < partitions c)
       \<and> (\<forall>q. (lookup_claim c' q \<noteq> None)
              = (lookup_claim c q \<noteq> None
                 \<or> (claims c \<noteq> None \<and> TryClaimPartition q True \<in> set evs)))"
proof -
  from run have pos: "0 < partitions c"
    and loop: "claimPartitions_loop m clock offset 0 c = (c', evs)"
    by (simp_all add: Consumer_claimPartitions_def split: if_splits)
  note look = claimPartitions_loop_lookup [OF loop]
  note free = claimPartitions_loop_tried_free [OF loop]
  have tried: "lookup_claim c q = None \<and> 0 \<le> q \<and> q < partitions c"
    if "TryClaimPartition q b \<in> set evs" for q b
  proof -
    from free that obtain j where j: "lookup_claim c q = None" "0 \<le> j" "j < partitions c"
      "q = visited c offset j" by blast
    have "q = (j + offset) mod partitions c"
      unfolding j(4) using off small j(2,3) by (rule visited_mod)
    with pos j(1) show ?thesis by simp
  qed
  have balanced: "length (filter is_success evs) \<le> 1
            \<and> (\<forall>q. TryClaimPartition q True \<in> set evs \<longrightarrow> last evs = TryClaimPartition q True)
            \<and> (\<forall>q q'. lookup_claim c' q \<noteq> None \<and> lookup_claim c q = None
                      \<and> lookup_claim c' q' \<noteq> None \<and> lookup_claim c q' = None
                    \<longrightarrow> q = q')"
    if b: "behavior c = CbBalanced"
  proof -
    have mem: "TryClaimPartition q True \<in> set (filter is_success evs)"
      if "TryClaimPartition q True \<in> set evs" for q
      using that by (simp add: is_success_def)
    from claimPartitions_loop_balanced [OF loop] b
    consider "filter is_success evs = []"
      | q0 where "filter is_success evs = [TryClaimPartition q0 True]"
          "last evs = TryClaimPartition q0 True"
      by blast
    then show ?thesis
    proof cases
      case 1
      with mem have none: "TryClaimPartition q True \<notin> set evs" for q by fastforce
      with look have "\<forall>q. lookup_claim c' q \<noteq> None \<longrightarrow> lookup_claim c q \<noteq> None" by blast
      with 1 none show ?thesis by auto
    next
      case 2
      with mem have only: "q = q0" if "TryClaimPartition q True \<in> set evs" for q
        using that by fastforce
      have new: "q = q0" if "lookup_claim c' q \<noteq> None" "lookup_claim c q = None" for q
        using look that only by blast
      have "q = q'" if "lookup_claim c' q \<noteq> None" "lookup_claim c q = None"
        "lookup_claim c' q' \<noteq> None" "lookup_claim c q' = None" for q q'
        using new [OF that(1,2)] new [OF that(3,4)] by simp
      moreover have "length (filter is_success evs) \<le> 1" using 2 by simp
      moreover have "\<forall>q. TryClaimPartition q True \<in> set evs \<longrightarrow> last evs = TryClaimPartition q True"
        using 2 only by blast
      ultimately show ?thesis by blast
    qed
  qed
  have aggressive: "\<exists>b. TryClaimPartition p b \<in> set evs"
    if b: "behavior c \<noteq> CbBalanced" and p: "0 \<le> p" "p < partitions c"
      "lookup_claim c p = None" for p
  proof -
    from visited_onto [OF off small p(1,2)]
    obtain j where j: "0 \<le> j" "j < partitions c" "visited c offset j = p" by blast
    with claimPartitions_loop_aggressive [OF loop] b p(3) show ?thesis by force
  qed
  from balanced aggressive tried look show ?thesis by blast
qed

lemma claimPartitions_all_four:
  "Consumer_claimPartitions marshaler_ok (\<lambda>p. 100) 1 (Consumer_empty\<lparr>behavior := CbAggressive\<rparr>) =
     Inr (Consumer_empty
            \<lparr>behavior := CbAggressive,
              claims := Some [(1, stored_consumerClaim ''t'' 1 0 0 0 100),
                              (2, stored_consumerClaim ''t'' 2 0 0 0 100),
                              (3, stored_consumerClaim ''t'' 3 0 0 0 100),
                              (0, stored_consumerClaim ''t'' 0 0 0 0 100)]\<rparr>,
          [CallGetPartitionClaim ''t'' 1, CallGetPartitionOffsets ''t'' 1,
           CallClaimPartition ''t'' 1, CallHeartbeat ''t'' 1 0,
           CallKafkaConsumer ''t'' 1 0, Go 1 GoMessagePump, TryClaimPartition 1 True,
           CallGetPartitionClaim ''t'' 2, CallGetPartitionOffsets ''t'' 2,
           CallClaimPartition ''t'' 2, CallHeartbeat ''t'' 2 0,
           CallKafkaConsumer ''t'' 2 0, Go 2 GoMessagePump, TryClaimPartition 2 True,
           CallGetPartitionClaim ''t'' 3, CallGetPartitionOffsets ''t'' 3,
           CallClaimPartition ''t'' 3, CallHeartbeat ''t'' 3 0,
           CallKafkaConsumer ''t'' 3 0, Go 3 GoMessagePump, TryClaimPartition 3 True,
           CallGetPartitionClaim ''t'' 0, CallGetPartitionOffsets ''t'' 0,
           CallClaimPartition ''t'' 0, CallHeartbeat ''t'' 0 0,
           CallKafkaConsumer ''t'' 0 0, Go 0 GoMessagePump, TryClaimPartition 0 True])"
  by (simp add: Consumer_claimPartitions_def claimPartitions_loop_unfold visited_def wrap64_def
        go_rem_def tryClaimPartition_result lookup_claim_def marshaler_ok_def Consumer_empty_def
        CbAggressive_def CbBalanced_def start_offset_def Let_def)

lemma claimPartitions_one:
  "Consumer_claimPartitions (marshaler_race_lost_at 1) (\<lambda>p. 100) 1 Consumer_empty =
     Inr (Consumer_empty\<lparr>claims := Some [(2, stored_consumerClaim ''t'' 2 0 0 0 100)]\<rparr>,
          [CallGetPartitionClaim ''t'' 1, CallGetPartitionOffsets ''t'' 1,
           CallClaimPartition ''t'' 1, TryClaimPartition 1 False,
           CallGetPartitionClaim ''t'' 2, CallGetPartitionOffsets ''t'' 2,
           CallClaimPartition ''t'' 2, CallHeartbeat ''t'' 2 0,
           CallKafkaConsumer ''t'' 2 0, Go 2 GoMessagePump, TryClaimPartition 2 True])"
  by (simp add: Consumer_claimPartitions_def claimPartitions_loop_unfold visited_def wrap64_def
        go_rem_def tryClaimPartition_result lookup_claim_def marshaler_race_lost_at_def
        marshaler_ok_def Consumer_empty_def
        CbAggressive_def CbBalanced_def start_offset_def Let_def)

theorem claimPartitions_modes_witness:
  "Consumer_claimPartitions marshaler_ok (\<lambda>p. 100) 1 (Consumer_empty\<lparr>behavior := CbAggressive\<rparr>) =
     Inr (Consumer_empty
            \<lparr>behavior := CbAggressive,
              claims := Some [(1, stored_consumerClaim ''t'' 1 0 0 0 100),
                              (2, stored_consumerClaim ''t'' 2 0 0 0 100),
                              (3, stored_consumerClaim ''t'' 3 0 0 0 100),
                              (0, stored_consumerClaim ''t'' 0 0 0 0 100)]\<rparr>,
          [CallGetPartitionClaim ''t'' 1, CallGetPartitionOffsets ''t'' 1,
           CallClaimPartition ''t'' 1, CallHeartbeat ''t'' 1 0,
           CallKafkaConsumer ''t'' 1 0, Go 1 GoMessagePump, TryClaimPartition 1 True,
           CallGetPartitionClaim ''t'' 2, CallGetPartitionOffsets ''t'' 2,
           CallClaimPartition ''t'' 2, CallHeartbeat ''t'' 2 0,
           CallKafkaConsumer ''t'' 2 0, Go 2 GoMessagePump, TryClaimPartition 2 True,
           CallGetPartitionClaim ''t'' 3, CallGetPartitionOffsets ''t'' 3,
           CallClaimPartition ''t'' 3, CallHeartbeat ''t'' 3 0,
           CallKafkaConsumer ''t'' 3 0, Go 3 GoMessagePump, TryClaimPartition 3 True,
           CallGetPartitionClaim ''t'' 0, CallGetPartitionOffsets ''t'' 0,
           CallClaimPartition ''t'' 0, CallHeartbeat ''t'' 0 0,
           CallKafkaConsumer ''t'' 0 0, Go 0 GoMessagePump, TryClaimPartition 0 True])
   \<and> Consumer_claimPartitions (marshaler_race_lost_at 1) (\<lambda>p. 100) 1 Consumer_empty =
     Inr (Consumer_empty\<lparr>claims := Some [(2, stored_consumerClaim ''t'' 2 0 0 0 100)]\<rparr>,
          [CallGetPartitionClaim ''t'' 1, CallGetPartitionOffsets ''t'' 1,
           CallClaimPartition ''t'' 1, TryClaimPartition 1 False,
           CallGetPartitionClaim ''t'' 2, CallGetPartitionOffsets ''t'' 2,
           CallClaimPartition ''t'' 2, CallHeartbeat ''t'' 2 0,
           CallKafkaConsumer ''t'' 2 0, Go 2 GoMessagePump, TryClaimPartition 2 True])
   \<and> lookup_claim
        (Consumer_empty\<lparr>claims := Some [(2, stored_consumerClaim ''t'' 2 0 0 0 100)]\<rparr>) 2
       \<noteq> None
   \<and> lookup_claim
        (Consumer_empty\<lparr>claims := Some [(2, stored_consumerClaim ''t'' 2 0 0 0 100)]\<rparr>) 3
       = None"
proof -
  have h: "(0::int) \<le> 1" "1 < partitions (Consumer_empty\<lparr>behavior := CbAggressive\<rparr>)"
    "partitions (Consumer_empty\<lparr>behavior := CbAggressive\<rparr>) \<le> 2 ^ 62"
    "1 < partitions Consumer_empty" "partitions Consumer_empty \<le> 2 ^ 62"
    by (simp_all add: Consumer_empty_def)
  note a = claimPartitions_modes [OF claimPartitions_all_four h(1,2,3)]
  note b = claimPartitions_modes [OF claimPartitions_one h(1,4,5)]
  have e: "lookup_claim Consumer_empty q = None" "claims Consumer_empty \<noteq> None" for q
    by (simp_all add: lookup_claim_def Consumer_empty_def)
  from b have "\<forall>q. (lookup_claim
        (Consumer_empty\<lparr>claims := Some [(2, stored_consumerClaim ''t'' 2 0 0 0 100)]\<rparr>) q \<noteq> None)
       = (lookup_claim Consumer_empty q \<noteq> None
          \<or> (claims Consumer_empty \<noteq> None
              \<and> TryClaimPartition q True \<in> set
                  [CallGetPartitionClaim ''t'' 1, CallGetPartitionOffsets ''t'' 1,
                   CallClaimPartition ''t'' 1, TryClaimPartition 1 False,
                   CallGetPartitionClaim ''t'' 2, CallGetPartitionOffsets ''t'' 2,
                   CallClaimPartition ''t'' 2, CallHeartbeat ''t'' 2 0,
                   CallKafkaConsumer ''t'' 2 0, Go 2 GoMessagePump, TryClaimPartition 2 True]))"
    by blast
  then have "(lookup_claim
        (Consumer_empty\<lparr>claims := Some [(2, stored_consumerClaim ''t'' 2 0 0 0 100)]\<rparr>) q \<noteq> None)
       = (q = 2)" for q
    using e by simp
  from this [of 2] this [of 3] have "lookup_claim
        (Consumer_empty\<lparr>claims := Some [(2, stored_consumerClaim ''t'' 2 0 0 0 100)]\<rparr>) 2 \<noteq> None"
    "lookup_claim
        (Consumer_empty\<lparr>claims := Some [(2, stored_consumerClaim ''t'' 2 0 0 0 100)]\<rparr>) 3 = None"
    by auto
  with claimPartitions_all_four claimPartitions_one a show ?thesis by simp
qed

subsection \<open>Consume\<close>

lemma Consume_scan_result:
  "Consume_scan cs msg =
     (if dequeued cs = [] then msg else Some (last (dequeued cs)), after_scan cs)"
proof (induction cs arbitrary: msg)
  case Nil
  show ?case by (simp add: dequeued_def after_scan_def)
next
  case (Cons e cs)
  obtain p claim where e: "e = (p, claim)" by (cases e)
  show ?case
  proof (cases "messages claim")
    case Nil
    with e Cons.IH [of msg] show ?thesis
      by (simp add: dequeued_def after_scan_def)
  next
    case (Cons x xs)
    with e Cons.IH [of "Some x"] show ?thesis
      by (simp add: dequeued_def after_scan_def)
  qed
qed

lemma buffered_after_scan:
  "concat (map (\<lambda>e. messages (snd e)) (after_scan cs))
     = concat (map (\<lambda>e. drop 1 (messages (snd e))) cs)"
  by (simp add: after_scan_def o_def)

lemma length_buffered_dequeued:
  "length (concat (map (\<lambda>e. drop 1 (messages (snd e))) cs)) + length (dequeued cs)
     = length (concat (map (\<lambda>e. messages (snd e)) cs))"
  by (induction cs) (auto simp: dequeued_def length_concat)

lemma messages_update_offsets:
  "concat (map (\<lambda>e. messages (snd e)) (AList.update p claim' cs))
     = concat (map (\<lambda>e. messages (snd e)) cs)"
  if "map_of cs p = Some claim" "messages claim' = messages claim"
  using that
  by (induction cs) (auto split: if_splits)

lemma Consume_pass_returns:
  assumes cs: "claims c = Some cs"
    and ne: "dequeued cs \<noteq> []"
    and owner: "map_of (after_scan cs) (sint (Partition (last (dequeued cs)))) = Some claim"
    and live: "claimed claim = 1"
  shows "\<exists>c' evs. Consume_pass H now c = (Some (Value (last (dequeued cs))), c', evs)
           \<and> buffered c' = concat (map (\<lambda>e. drop 1 (messages (snd e))) cs)"
proof -
  let ?msg = "last (dequeued cs)"
  let ?p = "sint (Partition ?msg)"
  let ?claim1 = "claim\<lparr>offsetCurrent := Offset ?msg + 1\<rparr>"
  have scan: "Consume_scan cs None = (Some ?msg, after_scan cs)"
    using ne by (simp add: Consume_scan_result)
  have b: "concat (map (\<lambda>e. messages (snd e)) (AList.update ?p claim' (after_scan cs)))
             = concat (map (\<lambda>e. drop 1 (messages (snd e))) cs)"
    if "messages claim' = messages claim" for claim'
    using messages_update_offsets [OF owner that] by (simp add: buffered_after_scan)
  show ?thesis
  proof (cases "lastHeartbeat ?claim1 \<le>s now - word_of_int H")
    case True
    with cs scan owner live have "Consume_pass H now c =
        (Some (Value ?msg),
         c\<lparr>claims := Some (AList.update ?p (?claim1\<lparr>lastHeartbeat := now\<rparr>) (after_scan cs))\<rparr>,
         [Go ?p (GoMarshalHeartbeat (Topic ?msg) ?p (Offset ?msg))])"
      by (simp add: Consume_pass_def Let_def)
    moreover have "buffered (c\<lparr>claims := Some (AList.update ?p (?claim1\<lparr>lastHeartbeat := now\<rparr>)
                       (after_scan cs))\<rparr>) = concat (map (\<lambda>e. drop 1 (messages (snd e))) cs)"
      using b [of "?claim1\<lparr>lastHeartbeat := now\<rparr>"] by (simp add: buffered_def)
    ultimately show ?thesis by blast
  next
    case False
    with cs scan owner live have "Consume_pass H now c =
        (Some (Value ?msg), c\<lparr>claims := Some (AList.update ?p ?claim1 (after_scan cs))\<rparr>, [])"
      by (simp add: Consume_pass_def Let_def)
    moreover have "buffered (c\<lparr>claims := Some (AList.update ?p ?claim1 (after_scan cs))\<rparr>)
                     = concat (map (\<lambda>e. drop 1 (messages (snd e))) cs)"
      using b [of ?claim1] by (simp add: buffered_def)
    ultimately show ?thesis by blast
  qed
qed

lemma set_dequeued: "set (dequeued cs) \<subseteq> set (concat (map (\<lambda>e. messages (snd e)) cs))"
  by (induction cs) (auto simp: dequeued_def dest: in_set_takeD)

lemma set_after_scan:
  "set (concat (map (\<lambda>e. messages (snd e)) (after_scan cs)))
     \<subseteq> set (concat (map (\<lambda>e. messages (snd e)) cs))"
  by (induction cs) (auto simp: after_scan_def dest: in_set_dropD)

lemma Consume_pass_buffered:
  assumes "Consume_pass H now c = (r, c', evs)"
  shows "(\<forall>v. r = Some v \<longrightarrow> v \<in> Value ` set (buffered c))
         \<and> set (buffered c') \<subseteq> set (buffered c)"
proof (cases "claims c")
  case None
  with assms show ?thesis by (simp add: Consume_pass_def)
next
  case (Some cs)
  show ?thesis
  proof (cases "dequeued cs = []")
    case True
    with Some assms have "r = None" "c' = c\<lparr>claims := Some (after_scan cs)\<rparr>"
      by (simp_all add: Consume_pass_def Consume_scan_result)
    with Some set_after_scan [of cs] show ?thesis by (simp add: buffered_def)
  next
    case False
    let ?msg = "last (dequeued cs)"
    let ?p = "sint (Partition ?msg)"
    have scan: "Consume_scan cs None = (Some ?msg, after_scan cs)"
      using False by (simp add: Consume_scan_result)
    have "?msg \<in> set (dequeued cs)" using False by simp
    with set_dequeued [of cs] Some have v: "Value ?msg \<in> Value ` set (buffered c)"
      by (auto simp: buffered_def)
    have sub: "set (concat (map (\<lambda>e. messages (snd e)) (after_scan cs))) \<subseteq> set (buffered c)"
      using set_after_scan [of cs] Some by (simp add: buffered_def)
    show ?thesis
    proof (cases "map_of (after_scan cs) ?p")
      case None
      with Some scan assms have "r = None" "c' = c\<lparr>claims := Some (after_scan cs)\<rparr>"
        by (simp_all add: Consume_pass_def Let_def)
      with sub show ?thesis by (simp add: buffered_def)
    next
      case (Some claim)
      have upd: "concat (map (\<lambda>e. messages (snd e)) (AList.update ?p claim' (after_scan cs)))
             = concat (map (\<lambda>e. messages (snd e)) (after_scan cs))"
        if "messages claim' = messages claim" for claim'
        using messages_update_offsets [OF Some that] .
      show ?thesis
      proof (cases "claimed claim = 1")
        case False
        with \<open>claims c = Some cs\<close> scan Some assms
        have "r = None" "c' = c\<lparr>claims := Some (after_scan cs)\<rparr>"
          by (simp_all add: Consume_pass_def Let_def)
        with sub show ?thesis by (simp add: buffered_def)
      next
        case True
        let ?claim1 = "claim\<lparr>offsetCurrent := Offset ?msg + 1\<rparr>"
        let ?claim2 = "if lastHeartbeat ?claim1 \<le>s now - word_of_int H
                       then ?claim1\<lparr>lastHeartbeat := now\<rparr> else ?claim1"
        from True \<open>claims c = Some cs\<close> scan Some assms
        have "r = Some (Value ?msg)"
          "c' = c\<lparr>claims := Some (AList.update ?p ?claim2 (after_scan cs))\<rparr>"
          by (simp_all add: Consume_pass_def Let_def split: if_splits)
        moreover have "messages ?claim2 = messages claim" by simp
        ultimately show ?thesis
          using v sub upd [of ?claim2] by (simp add: buffered_def)
      qed
    qed
  qed
qed

lemma Consume_returns_buffered:
  "Consumer_Consume H clock k c = Some (v, c', evs) \<Longrightarrow> v \<in> Value ` set (buffered c)"
proof (induction k arbitrary: c v c' evs)
  case 0
  then show ?case by simp
next
  case (Suc k)
  obtain r c1 ev1 where p: "Consume_pass H (clock k) c = (r, c1, ev1)"
    by (cases "Consume_pass H (clock k) c")
  note b = Consume_pass_buffered [OF p]
  show ?case
  proof (cases r)
    case (Some w)
    with p Suc.prems have "v = w" by simp
    with b Some show ?thesis by simp
  next
    case None
    with p Suc.prems obtain c2 ev2 where "Consumer_Consume H clock k c1 = Some (v, c2, ev2)"
      by (auto split: option.splits)
    from Suc.IH [OF this] b show ?thesis by auto
  qed
qed

text \<open>
  Claim C10. Take a consumer in which two or more claims have a buffered message, and
  let the claim that the last message of the scan belongs to be in the map and claimed.
  One call of \<^verbatim>\<open>Consume\<close> then takes a message from each of these channels (the
  \<^verbatim>\<open>break\<close> leaves the \<^verbatim>\<open>select\<close> only) and returns the payload of the last one taken.
  Every message taken has left its channel and none is put back: the channels hold
  exactly what they held without their first messages, so the messages taken before the
  last one are lost. Whatever a later \<^verbatim>\<open>Consume\<close> returns is the payload of a message
  buffered then. Such a state is reached from the empty consumer by a sweep of
  \<^verbatim>\<open>claimPartitions\<close> and one pass of two pumps (the witness).
\<close>

theorem Consume_discards:
  assumes cs: "claims c = Some cs"
    and two: "2 \<le> length (dequeued cs)"
    and owner: "map_of (after_scan cs) (sint (Partition (last (dequeued cs)))) = Some claim"
    and live: "claimed claim = 1"
  shows "\<exists>c' evs.
           Consumer_Consume H clock (Suc n) c = Some (Value (last (dequeued cs)), c', evs)
           \<and> buffered c' = concat (map (\<lambda>e. drop 1 (messages (snd e))) cs)
           \<and> length (buffered c') + length (dequeued cs) = length (buffered c)
           \<and> (\<forall>k v c2 evs2. Consumer_Consume H clock k c' = Some (v, c2, evs2)
                 \<longrightarrow> v \<in> Value ` set (buffered c'))"
proof -
  from two have ne: "dequeued cs \<noteq> []" by auto
  from Consume_pass_returns [OF cs ne owner live, of H "clock n"]
  obtain c' evs where
    p: "Consume_pass H (clock n) c = (Some (Value (last (dequeued cs))), c', evs)"
    and b: "buffered c' = concat (map (\<lambda>e. drop 1 (messages (snd e))) cs)"
    by blast
  from p have "Consumer_Consume H clock (Suc n) c = Some (Value (last (dequeued cs)), c', evs)"
    by simp
  moreover have "length (buffered c') + length (dequeued cs) = length (buffered c)"
    unfolding b using length_buffered_dequeued [of cs] cs by (simp add: buffered_def)
  moreover have "\<forall>k v c2 evs2. Consumer_Consume H clock k c' = Some (v, c2, evs2)
                 \<longrightarrow> v \<in> Value ` set (buffered c')"
    using Consume_returns_buffered by blast
  ultimately show ?thesis using b by blast
qed

lemma Consumer_two_buffered_reached:
  "(case Consumer_claimPartitions marshaler_ok (\<lambda>p. 100) 1
           (Consumer_empty\<lparr>behavior := CbAggressive\<rparr>) of
      Inl e \<Rightarrow> None
    | Inr (c, evs) \<Rightarrow>
        Some (pump_pass_on 3 (Inr message_b) (pump_pass_on 1 (Inr message_a) c)))
   = Some Consumer_two_buffered"
  unfolding claimPartitions_all_four
  by (simp add: pump_pass_on_def consumerClaim_messagePump_pass_def Consumer_two_buffered_def
        stored_consumerClaim_def Consumer_empty_def)

lemma Consume_two_buffered:
  "Consumer_Consume 10 (\<lambda>k. 105) 1 Consumer_two_buffered
     = Some ([98], Consumer_after_Consume, [])"
  by (simp add: Consume_pass_def Consumer_two_buffered_def Consumer_after_Consume_def
        Consumer_empty_def stored_consumerClaim_def message_a_def message_b_def Let_def)

theorem Consume_discards_witness:
  "(case Consumer_claimPartitions marshaler_ok (\<lambda>p. 100) 1
           (Consumer_empty\<lparr>behavior := CbAggressive\<rparr>) of
      Inl e \<Rightarrow> None
    | Inr (c, evs) \<Rightarrow>
        Some (pump_pass_on 3 (Inr message_b) (pump_pass_on 1 (Inr message_a) c)))
   = Some Consumer_two_buffered
   \<and> buffered Consumer_two_buffered = [message_a, message_b]
   \<and> Consumer_Consume 10 (\<lambda>k. 105) 1 Consumer_two_buffered
       = Some (Value message_b, Consumer_after_Consume, [])
   \<and> Value message_a \<noteq> Value message_b
   \<and> buffered Consumer_after_Consume = []
   \<and> Consumer_Consume 10 (\<lambda>k. 105) 7 Consumer_after_Consume = None"
proof -
  let ?cs = "[(1::int, (stored_consumerClaim ''t'' 1 0 0 0 100)\<lparr>messages := [message_a]\<rparr>),
              (2, stored_consumerClaim ''t'' 2 0 0 0 100),
              (3, (stored_consumerClaim ''t'' 3 0 0 0 100)\<lparr>messages := [message_b]\<rparr>),
              (0, stored_consumerClaim ''t'' 0 0 0 0 100)]"
  have cs: "claims Consumer_two_buffered = Some ?cs"
    by (simp add: Consumer_two_buffered_def)
  have d: "dequeued ?cs = [message_a, message_b]"
    by (simp add: dequeued_def stored_consumerClaim_def)
  have two: "2 \<le> length (dequeued ?cs)" unfolding d by simp
  have owner: "map_of (after_scan ?cs) (sint (Partition (last (dequeued ?cs))))
                 = Some (stored_consumerClaim ''t'' 3 0 0 0 100)"
    unfolding d by (simp add: after_scan_def message_b_def stored_consumerClaim_def)
  have live: "claimed (stored_consumerClaim ''t'' 3 0 0 0 100) = 1"
    by (simp add: stored_consumerClaim_def)
  from Consume_discards [OF cs two owner live, of 10 "\<lambda>k. 105" 0]
  obtain c' evs where
    r: "Consumer_Consume 10 (\<lambda>k. 105) (Suc 0) Consumer_two_buffered
          = Some (Value (last (dequeued ?cs)), c', evs)"
    and b: "buffered c' = concat (map (\<lambda>e. drop 1 (messages (snd e))) ?cs)"
    and later: "\<forall>k v c2 evs2. Consumer_Consume 10 (\<lambda>k. 105) k c' = Some (v, c2, evs2)
                 \<longrightarrow> v \<in> Value ` set (buffered c')"
    by blast
  from r Consume_two_buffered have c': "c' = Consumer_after_Consume" by simp
  from b have empty: "buffered Consumer_after_Consume = []"
    unfolding c' by (simp add: stored_consumerClaim_def)
  have none: "Consumer_Consume 10 (\<lambda>k. 105) 7 Consumer_after_Consume = None"
  proof (cases "Consumer_Consume 10 (\<lambda>k. 105) 7 Consumer_after_Consume")
    case None
    then show ?thesis .
  next
    case (Some x)
    obtain v c2 evs2 where "x = (v, c2, evs2)" by (cases x)
    with Some later empty show ?thesis unfolding c' by fastforce
  qed
  have buf: "buffered Consumer_two_buffered = [message_a, message_b]"
    by (simp add: buffered_def cs stored_consumerClaim_def)
  have v: "Value message_b = [98]" "Value message_a \<noteq> Value message_b"
    by (simp_all add: message_a_def message_b_def)
  from Consumer_two_buffered_reached buf Consume_two_buffered v empty none
  show ?thesis by simp
qed

subsection \<open>The health sweep\<close>

lemma release_loop_events:
  "release_loop maxToRelease unclaimPartitions cs = (cs', evs) \<Longrightarrow>
     int (length (filter is_StoreClaimed evs)) \<le> max 0 maxToRelease
     \<and> int (length (filter is_DeleteClaim evs)) \<le> max 0 maxToRelease
     \<and> filter is_ReleasePartition evs = []"
proof (induction unclaimPartitions arbitrary: maxToRelease cs cs' evs)
  case Nil
  then show ?case by simp
next
  case (Cons claim rest)
  show ?case
  proof (cases "maxToRelease \<le> 0")
    case True
    with Cons.prems show ?thesis by simp
  next
    case False
    obtain cs1 ev1 where r: "release_loop (maxToRelease - 1) rest
        (map_option (AList.delete (partID claim)) cs) = (cs1, ev1)"
      by (cases "release_loop (maxToRelease - 1) rest (map_option (AList.delete (partID claim)) cs)")
    with False Cons.prems
    have e: "evs = StoreClaimed (partID claim) 0 # DeleteClaim (partID claim) # ev1"
      by simp
    from Cons.IH [OF r] False show ?thesis
      unfolding e
      by (simp add: is_StoreClaimed_def is_DeleteClaim_def is_ReleasePartition_def)
  qed
qed

lemma length_delete: "length cs \<le> Suc (length (AList.delete p cs))" if "distinct (map fst cs)"
  using that
proof (induction cs)
  case Nil
  show ?case by simp
next
  case (Cons e cs)
  then have d: "distinct (map fst cs)" and n: "fst e \<notin> fst ` set cs" by simp_all
  show ?case
  proof (cases "fst e = p")
    case True
    with n have "AList.delete p cs = cs"
      by (simp add: delete_id)
    with True show ?thesis by simp
  next
    case False
    with Cons.IH [OF d] show ?thesis by simp
  qed
qed

lemma release_loop_kept:
  "release_loop maxToRelease unclaimPartitions (Some cs) = (cs', evs) \<Longrightarrow>
   distinct (map fst cs) \<Longrightarrow>
     \<exists>cs1. cs' = Some cs1 \<and> distinct (map fst cs1)
       \<and> int (length cs) \<le> int (length cs1) + max 0 maxToRelease"
proof (induction unclaimPartitions arbitrary: maxToRelease cs cs' evs)
  case Nil
  then show ?case by auto
next
  case (Cons claim rest)
  show ?case
  proof (cases "maxToRelease \<le> 0")
    case True
    with Cons.prems show ?thesis by auto
  next
    case False
    obtain cs2 ev2 where r: "release_loop (maxToRelease - 1) rest
        (Some (AList.delete (partID claim) cs)) = (cs2, ev2)"
      by (cases "release_loop (maxToRelease - 1) rest (Some (AList.delete (partID claim) cs))")
    with False Cons.prems have c: "cs' = cs2" by simp
    have d: "distinct (map fst (AList.delete (partID claim) cs))"
      using Cons.prems(2) by (rule distinct_delete)
    from Cons.IH [OF r d] obtain cs1 where 1: "cs2 = Some cs1" "distinct (map fst cs1)"
      "int (length (AList.delete (partID claim) cs)) \<le> int (length cs1) + max 0 (maxToRelease - 1)"
      by blast
    from length_delete [OF Cons.prems(2), of "partID claim"] 1(3) False
    have "int (length cs) \<le> int (length cs1) + max 0 maxToRelease" by simp
    with 1 c show ?thesis by simp
  qed
qed

lemma updateOffsets_range_keys:
  "map fst (fst (snd (updateOffsets_range m t cs))) = map fst cs"
proof -
  have "map fst (map (refreshed m t) (takeWhile (fetch_ok m t) cs) @ dropWhile (fetch_ok m t) cs)
          = map fst (takeWhile (fetch_ok m t) cs) @ map fst (dropWhile (fetch_ok m t) cs)"
    by (simp add: refreshed_fields o_def)
  also have "\<dots> = map fst (takeWhile (fetch_ok m t) cs @ dropWhile (fetch_ok m t) cs)"
    by (simp only: map_append)
  also have "\<dots> = map fst cs"
    by (simp only: takeWhile_dropWhile_id)
  finally show ?thesis by (simp add: updateOffsets_range_result)
qed

lemma getUnhealthyClaims_range_keys:
  "map fst (snd (getUnhealthyClaims_range F H nowTime cs)) = map fst cs"
  by (induction cs) (auto simp: Let_def split: prod.splits)

lemma manageClaims_sweep_flag_bound:
  assumes sweep: "manageClaims_sweep F m H nowTime c = (c', evs)"
    and cs: "claims c = Some cs" and dist: "distinct (map fst cs)"
  shows "int (length (filter is_StoreClaimed evs)) \<le> len_claims c div 2
         \<and> int (length (filter is_DeleteClaim evs)) \<le> len_claims c div 2
         \<and> len_claims c \<le> len_claims c' + len_claims c div 2"
proof -
  let ?t = "Consumer_topic c"
  obtain r cs1 ev1 where u: "updateOffsets_range m ?t cs = (r, cs1, ev1)"
    by (cases "updateOffsets_range m ?t cs")
  obtain un cs2 where g: "getUnhealthyClaims_range F H nowTime cs1 = (un, cs2)"
    by (cases "getUnhealthyClaims_range F H nowTime cs1")
  have k1: "map fst cs1 = map fst cs"
    using updateOffsets_range_keys [of m ?t cs] u by simp
  have k2: "map fst cs2 = map fst cs1"
    using getUnhealthyClaims_range_keys [of F H nowTime cs1] g by simp
  have l2: "length cs2 = length cs" using k1 k2 by (metis length_map)
  have d2: "distinct (map fst cs2)" using k1 k2 dist by simp
  have e1: "filter is_StoreClaimed ev1 = []" "filter is_DeleteClaim ev1 = []"
    using updateOffsets_range_events [of m ?t cs] u
    by (auto simp: filter_empty_conv filter_id_conv is_fetch_def is_StoreClaimed_def
          is_DeleteClaim_def split: event.splits)
  have n: "len_claims c = int (length cs)" using cs by (simp add: len_claims_def)
  show ?thesis
  proof (cases "un = []")
    case True
    with sweep cs u g have "c' = c\<lparr>claims := Some cs2\<rparr>" "evs = ev1"
      by (simp_all add: manageClaims_sweep_def Consumer_updateOffsets_def
            Consumer_getUnhealthyClaims_def Let_def)
    with e1 l2 n show ?thesis by (simp add: len_claims_def)
  next
    case False
    obtain cs3 ev3 where rl: "release_loop (len_claims c div 2) un (Some cs2) = (cs3, ev3)"
      by (cases "release_loop (len_claims c div 2) un (Some cs2)")
    from False sweep cs u g rl have c': "c' = c\<lparr>claims := cs3\<rparr>"
      and evs: "evs = ev1 @ ev3 @ map (\<lambda>claim. CallReleasePartition (topic claim) (partID claim)
                                            (offsetCurrent claim)) un"
      by (simp_all add: manageClaims_sweep_def Consumer_updateOffsets_def
            Consumer_getUnhealthyClaims_def Let_def)
    have nn: "0 \<le> len_claims c div 2" using n by simp
    from release_loop_events [OF rl] nn
    have b3: "int (length (filter is_StoreClaimed ev3)) \<le> len_claims c div 2"
      "int (length (filter is_DeleteClaim ev3)) \<le> len_claims c div 2"
      by simp_all
    from release_loop_kept [OF rl d2] nn obtain cs4 where
      k: "cs3 = Some cs4" "int (length cs2) \<le> int (length cs4) + len_claims c div 2"
      by auto
    have m0: "filter is_StoreClaimed (map (\<lambda>claim. CallReleasePartition (topic claim)
                 (partID claim) (offsetCurrent claim)) un) = []"
      "filter is_DeleteClaim (map (\<lambda>claim. CallReleasePartition (topic claim)
                 (partID claim) (offsetCurrent claim)) un) = []"
      by (simp_all add: filter_empty_conv is_StoreClaimed_def is_DeleteClaim_def)
    from b3 k l2 n e1 m0 show ?thesis
      unfolding c' evs by (simp add: len_claims_def)
  qed
qed

text \<open>
  Claim C1 bounds the releases of one health sweep by \<open>claim_count div 2\<close>. The loop under
  the lock keeps to the bound (\<open>manageClaims_sweep_flag_bound\<close>: at most that many flags
  are stored, that many claims are deleted, and the map shrinks by at most that much).
  The loop after it does not: it calls \<^verbatim>\<open>ReleasePartition\<close> for every unhealthy claim.
  With three claims of which two are unhealthy, the budget is 1, one claim is deleted,
  and \<^verbatim>\<open>ReleasePartition\<close> is called twice: also for the claim of partition 2, which
  stays in the map (the source logs that it keeps it).
\<close>

theorem manageClaims_sweep_releases_kept_claim:
  "manageClaims_sweep real_ops marshaler_ok 10 200 Consumer_two_flagged =
     (Consumer_two_flagged
        \<lparr>claims := Some
           [(2, consumerClaim_example\<lparr>claimed := 0, offsetEarliest := 0, offsetLatest := 0\<rparr>),
            (3, consumerClaim_example\<lparr>partID := 3, offsetEarliest := 0, offsetLatest := 0\<rparr>)]\<rparr>,
      [CallGetPartitionOffsets ''t'' 0, CallGetPartitionOffsets ''t'' 2,
       CallGetPartitionOffsets ''t'' 3, StoreClaimed 0 0, DeleteClaim 0,
       CallReleasePartition ''t'' 0 7, CallReleasePartition ''t'' 2 7])
   \<and> len_claims Consumer_two_flagged div 2 = 1
   \<and> length (filter is_ReleasePartition
         (snd (manageClaims_sweep real_ops marshaler_ok 10 200 Consumer_two_flagged))) = 2
   \<and> map_option claimed
         (lookup_claim (fst (manageClaims_sweep real_ops marshaler_ok 10 200 Consumer_two_flagged)) 2)
       = Some 0"
  by (simp add: manageClaims_sweep_def Consumer_updateOffsets_def Consumer_getUnhealthyClaims_def
        Consumer_two_flagged_def consumerClaim_example_def marshaler_ok_def len_claims_def
        lookup_claim_def is_ReleasePartition_def Let_def word_sle_eq)

end
